theory Spec2Isabelle
  imports Complex_Main
begin

section \<open>Errors\<close>

text \<open>
  The exceptions that the modelled parts of \<^verbatim>\<open>maasserver/rpc/regionservice.py\<close> raise
  or trap. A function that can raise returns \<open>error + 'a\<close>, with \<open>Inl\<close> the exception.
\<close>

datatype error =
    CancelledError
  | NoConnectionsAvailable
  | AssertionError
  | AlreadyCalledError
  | DoesNotExist
  | MultipleObjectsReturned
  | KeyError
  | CannotRegisterRackController
  | OtherError

section \<open>The durable store behind \<^verbatim>\<open>RegionAdvertising\<close>\<close>

text \<open>
  Timestamps are \<^verbatim>\<open>datetime\<close> values, counted here in microseconds (the resolution of
  \<^verbatim>\<open>datetime\<close> and \<^verbatim>\<open>timedelta\<close>).
\<close>

type_synonym timestamp = int

definition timedelta_seconds :: "int \<Rightarrow> int" where
  "timedelta_seconds s = s * 1000000"

text \<open>
  Modelled from the spec: the Django models \<^verbatim>\<open>RegionController\<close>,
  \<^verbatim>\<open>RegionControllerProcess\<close>, \<^verbatim>\<open>RegionControllerProcessEndpoint\<close> and \<^verbatim>\<open>Service\<close> are
  imported by the source but declared elsewhere. The spec's data model gives their
  fields: a Presence Record has "its parent region controller, its process id, a last
  refreshed timestamp, and a set of (address, port) endpoint rows"; the health status
  record is "keyed by (owning entity, service name) with fields status and free-text
  reason". A region controller is referred to by its \<^verbatim>\<open>system_id\<close>.
\<close>

record region_controller =
  rc_system_id :: string
  rc_hostname :: string
  rc_updated :: timestamp

record region_process =
  rp_id :: nat
  rp_region :: string
  rp_pid :: nat
  rp_created :: timestamp
  rp_updated :: timestamp

record process_endpoint =
  ep_id :: nat
  ep_process :: nat
  ep_address :: string
  ep_port :: nat

datatype service_status = UNKNOWN | RUNNING | DEGRADED | DEAD

record service_row =
  sv_node :: string
  sv_name :: string
  sv_status :: service_status
  sv_info :: string

record db =
  regions :: "region_controller list"
  processes :: "region_process list"
  endpoints :: "process_endpoint list"
  services :: "service_row list"
  next_endpoint_id :: nat

text \<open>
  What the process reads from its surroundings during one transaction: \<^verbatim>\<open>now()\<close> (the
  time of the transaction), \<^verbatim>\<open>os.getpid()\<close>, \<^verbatim>\<open>gethostname()\<close>, the \<^verbatim>\<open>system_id\<close> that
  \<^verbatim>\<open>get_running_controller\<close> looks up, and the liveness probe \<^verbatim>\<open>is_pid_running\<close>.
\<close>

record env =
  now :: timestamp
  getpid :: nat
  gethostname :: string
  maas_id :: string
  is_pid_running :: "nat \<Rightarrow> bool"

text \<open>An instance of \<^verbatim>\<open>RegionAdvertising\<close>: the two fields \<^verbatim>\<open>__init__\<close> stores.\<close>

record advertising =
  region_id :: string
  process_id :: nat

text \<open>\<^verbatim>\<open>QuerySet.get\<close>: exactly one row, or an exception.\<close>

definition get_one :: "'a list \<Rightarrow> error + 'a" where
  "get_one rows =
     (case rows of
        [] \<Rightarrow> Inl DoesNotExist
      | [x] \<Rightarrow> Inr x
      | _ \<Rightarrow> Inl MultipleObjectsReturned)"

text \<open>
  Modelled from the spec: \<^verbatim>\<open>RegionController.objects.get_running_controller\<close> is declared
  outside the source; the spec calls its result "the hosting region controller". It is
  the region controller whose \<^verbatim>\<open>system_id\<close> is this host's id.
\<close>

definition get_running_controller :: "env \<Rightarrow> db \<Rightarrow> error + region_controller" where
  "get_running_controller e d =
     get_one (filter (\<lambda>r. rc_system_id r = maas_id e) (regions d))"

text \<open>
  \<^verbatim>\<open>QuerySet.filter(...).delete()\<close> and \<^verbatim>\<open>process.delete()\<close> on Presence Records. The
  endpoint rows of a deleted process go with it (they cannot outlive the record they
  belong to).
\<close>

definition delete_processes :: "(region_process \<Rightarrow> bool) \<Rightarrow> db \<Rightarrow> db" where
  "delete_processes P d =
     (let gone = map rp_id (filter P (processes d))
      in d\<lparr>processes := filter (\<lambda>p. \<not> P p) (processes d),
            endpoints := filter (\<lambda>ep. ep_process ep \<notin> set gone) (endpoints d)\<rparr>)"

subsection \<open>\<^verbatim>\<open>RegionAdvertising.demote\<close>\<close>

text \<open>
  \<^verbatim>\<open>
  for region_obj in Node.objects.filter(system_id=self.region_id):
      RegionControllerProcess.objects.get(
          region=region_obj, pid=os.getpid()).delete()
  \<close>
  The method is \<^verbatim>\<open>@transactional\<close>: an exception leaves the store as it was, so the
  result is either the exception or the new store.
\<close>

fun demote_loop :: "env \<Rightarrow> region_controller list \<Rightarrow> db \<Rightarrow> error + db" where
  "demote_loop e [] d = Inr d"
| "demote_loop e (region_obj # rest) d =
     (case get_one (filter (\<lambda>p. rp_region p = rc_system_id region_obj \<and> rp_pid p = getpid e)
                      (processes d)) of
        Inl err \<Rightarrow> Inl err
      | Inr process \<Rightarrow> demote_loop e rest (delete_processes (\<lambda>p. rp_id p = rp_id process) d))"

definition demote :: "env \<Rightarrow> advertising \<Rightarrow> db \<Rightarrow> error + db" where
  "demote e adv d =
     demote_loop e (filter (\<lambda>r. rc_system_id r = region_id adv) (regions d)) d"

subsection \<open>\<^verbatim>\<open>RegionAdvertising.getRegionProcess\<close>\<close>

text \<open>
  Modelled from the spec: \<^verbatim>\<open>TimestampedModel.save\<close> is declared outside the source. A
  save sets the row's last-refreshed timestamp \<^verbatim>\<open>updated\<close> to \<^verbatim>\<open>now()\<close> ("refreshed by
  every advertising tick"); the source's comment says the same: "Update the updated
  time for this process. This prevents other region process from removing this
  process."

  The record is looked up by \<^verbatim>\<open>id=self.process_id\<close>. When it is gone it is inserted again
  under the same id, for the running controller and \<^verbatim>\<open>os.getpid()\<close>.
\<close>

definition getRegionProcess :: "env \<Rightarrow> advertising \<Rightarrow> db \<Rightarrow> error + (region_process \<times> db)" where
  "getRegionProcess e adv d =
     (case get_one (filter (\<lambda>p. rp_id p = process_id adv) (processes d)) of
        Inl err \<Rightarrow>
          (if err = DoesNotExist then
             (case get_running_controller e d of
                Inl err' \<Rightarrow> Inl err'
              | Inr region \<Rightarrow>
                  (let process = \<lparr>rp_id = process_id adv, rp_region = rc_system_id region,
                                  rp_pid = getpid e, rp_created = now e, rp_updated = now e\<rparr>
                   in Inr (process, d\<lparr>processes := processes d @ [process]\<rparr>)))
           else Inl err)
      | Inr found \<Rightarrow>
          (let process = found\<lparr>rp_updated := now e\<rparr>
           in Inr (process,
                   d\<lparr>processes :=
                       map (\<lambda>p. if rp_id p = process_id adv then process else p) (processes d)\<rparr>)))"

subsection \<open>\<^verbatim>\<open>RegionAdvertising.update\<close>\<close>

definition NUMBER_OF_REGIOND_PROCESSES :: nat where
  "NUMBER_OF_REGIOND_PROCESSES = 4"

definition INTERVAL_NO_ENDPOINTS :: nat where
  "INTERVAL_NO_ENDPOINTS = 2"

definition INTERVAL_WITH_ENDPOINTS :: nat where
  "INTERVAL_WITH_ENDPOINTS = 60"

text \<open>
  \<^verbatim>\<open>
  update_fields = ["updated"]
  hostname = gethostname()
  if region_obj.hostname != hostname:
      region_obj.hostname = hostname
      update_fields.append("hostname")
  region_obj.save(update_fields=update_fields)
  \<close>
\<close>

definition save_region :: "env \<Rightarrow> region_controller \<Rightarrow> db \<Rightarrow> db" where
  "save_region e region_obj d =
     (let hostname = gethostname e;
          saved = (if rc_hostname region_obj \<noteq> hostname
                   then region_obj\<lparr>rc_hostname := hostname, rc_updated := now e\<rparr>
                   else region_obj\<lparr>rc_updated := now e\<rparr>)
      in d\<lparr>regions :=
            map (\<lambda>r. if rc_system_id r = rc_system_id region_obj then saved else r) (regions d)\<rparr>)"

text \<open>
  The two garbage collections, after this process's own record was refreshed:
  \<^verbatim>\<open>
  remove_before_time = now() - timedelta(seconds=90)
  RegionControllerProcess.objects.filter(
      updated__lte=remove_before_time).delete()
  sibling_processes = (
      RegionControllerProcess.objects
      .filter(region=region_obj)
      .exclude(id=self.process_id))
  for sibling_process in sibling_processes:
      if not is_pid_running(sibling_process.pid):
          sibling_process.delete()
  \<close>
\<close>

definition remove_old_processes :: "env \<Rightarrow> db \<Rightarrow> db" where
  "remove_old_processes e d =
     (let remove_before_time = now e - timedelta_seconds 90
      in delete_processes (\<lambda>p. rp_updated p \<le> remove_before_time) d)"

definition remove_dead_siblings :: "env \<Rightarrow> advertising \<Rightarrow> region_controller \<Rightarrow> db \<Rightarrow> db" where
  "remove_dead_siblings e adv region_obj d =
     delete_processes
       (\<lambda>p. rp_region p = rc_system_id region_obj \<and> rp_id p \<noteq> process_id adv
            \<and> \<not> is_pid_running e (rp_pid p)) d"

text \<open>
  The endpoints of this process:
  \<^verbatim>\<open>
  for addr, port in addresses:
      endpoint, created = (
          RegionControllerProcessEndpoint.objects.get_or_create(
              process=process, address=addr, port=port))
      if not created:
          previous_endpoint_ids.remove(endpoint.id)
  \<close>
  \<^verbatim>\<open>set.remove\<close> raises \<^verbatim>\<open>KeyError\<close> when the id is not in the set.
\<close>

fun sync_endpoints ::
  "nat \<Rightarrow> (string \<times> nat) list \<Rightarrow> nat list \<Rightarrow> db \<Rightarrow> error + (nat list \<times> db)" where
  "sync_endpoints pid [] previous_endpoint_ids d = Inr (previous_endpoint_ids, d)"
| "sync_endpoints pid ((addr, port) # rest) previous_endpoint_ids d =
     (case filter (\<lambda>ep. ep_process ep = pid \<and> ep_address ep = addr \<and> ep_port ep = port)
             (endpoints d) of
        [] \<Rightarrow>
          (let endpoint = \<lparr>ep_id = next_endpoint_id d, ep_process = pid,
                           ep_address = addr, ep_port = port\<rparr>
           in sync_endpoints pid rest previous_endpoint_ids
                (d\<lparr>endpoints := endpoints d @ [endpoint],
                    next_endpoint_id := Suc (next_endpoint_id d)\<rparr>))
      | [endpoint] \<Rightarrow>
          (if ep_id endpoint \<in> set previous_endpoint_ids
           then sync_endpoints pid rest (removeAll (ep_id endpoint) previous_endpoint_ids) d
           else Inl KeyError)
      | _ \<Rightarrow> Inl MultipleObjectsReturned)"

text \<open>
  \<^verbatim>\<open>
  previous_endpoint_ids = set(
      RegionControllerProcessEndpoint.objects.filter(
          process=process).values_list("id", flat=True))
  if len(addresses) == 0:
      interval = RegionAdvertisingService.INTERVAL_NO_ENDPOINTS
  else:
      interval = RegionAdvertisingService.INTERVAL_WITH_ENDPOINTS
      for addr, port in addresses: ...
  RegionControllerProcessEndpoint.objects.filter(
      id__in=previous_endpoint_ids).delete()
  \<close>
\<close>

definition update_endpoints ::
  "region_process \<Rightarrow> (string \<times> nat) list \<Rightarrow> db \<Rightarrow> error + (nat \<times> db)" where
  "update_endpoints process addresses d =
     (let previous_endpoint_ids =
            remdups (map ep_id (filter (\<lambda>ep. ep_process ep = rp_id process) (endpoints d)))
      in case (if length addresses = 0
               then Inr (INTERVAL_NO_ENDPOINTS, previous_endpoint_ids, d)
               else (case sync_endpoints (rp_id process) addresses previous_endpoint_ids d of
                       Inl err \<Rightarrow> Inl err
                     | Inr (ids, d') \<Rightarrow> Inr (INTERVAL_WITH_ENDPOINTS, ids, d'))) of
           Inl err \<Rightarrow> Inl err
         | Inr (interval, ids, d') \<Rightarrow>
             Inr (interval, d'\<lparr>endpoints := filter (\<lambda>ep. ep_id ep \<notin> set ids) (endpoints d')\<rparr>))"

text \<open>
  Modelled from the spec: the manager \<^verbatim>\<open>Service.objects\<close> (\<^verbatim>\<open>create_services_for\<close>,
  \<^verbatim>\<open>update_service_for\<close>, \<^verbatim>\<open>mark_dead\<close>) is declared outside the source. The spec's
  store boundary gives "create-or-get-by-natural-key" and "update specific fields" on
  the health status record keyed by (owning entity, service name), and "if zero, mark
  fully down". Only the \<^verbatim>\<open>regiond\<close> service is touched by the source.
\<close>

definition create_services_for :: "string \<Rightarrow> db \<Rightarrow> db" where
  "create_services_for node d =
     (if filter (\<lambda>s. sv_node s = node \<and> sv_name s = ''regiond'') (services d) \<noteq> [] then d
      else d\<lparr>services := services d @
                [\<lparr>sv_node = node, sv_name = ''regiond'', sv_status = UNKNOWN, sv_info = []\<rparr>]\<rparr>)"

definition update_service_for ::
  "string \<Rightarrow> string \<Rightarrow> service_status \<Rightarrow> string \<Rightarrow> db \<Rightarrow> error + db" where
  "update_service_for node name status info d =
     (case get_one (filter (\<lambda>s. sv_node s = node \<and> sv_name s = name) (services d)) of
        Inl err \<Rightarrow> Inl err
      | Inr _ \<Rightarrow>
          Inr (d\<lparr>services :=
                   map (\<lambda>s. if sv_node s = node \<and> sv_name s = name
                            then s\<lparr>sv_status := status, sv_info := info\<rparr> else s)
                     (services d)\<rparr>))"

definition mark_dead :: "string \<Rightarrow> db \<Rightarrow> error + db" where
  "mark_dead node d = update_service_for node ''regiond'' DEAD [] (create_services_for node d)"

text \<open>The status and reason recorded for the \<^verbatim>\<open>regiond\<close> service of a region controller.\<close>

definition service_of :: "db \<Rightarrow> string \<Rightarrow> (service_status \<times> string) list" where
  "service_of d node =
     map (\<lambda>s. (sv_status s, sv_info s))
       (filter (\<lambda>s. sv_node s = node \<and> sv_name s = ''regiond'') (services d))"

text \<open>Python's \<^verbatim>\<open>"%d" % n\<close> for a count.\<close>

fun str_nat :: "nat \<Rightarrow> string" where
  "str_nat n =
     (if n < 10 then [''0123456789'' ! n]
      else str_nat (n div 10) @ [''0123456789'' ! (n mod 10)])"

declare str_nat.simps [simp del]

text \<open>
  \<^verbatim>\<open>
  Service.objects.create_services_for(region_obj)
  number_of_processes = RegionControllerProcess.objects.filter(
      region=region_obj).count()
  not_running_count = NUMBER_OF_REGIOND_PROCESSES - number_of_processes
  if not_running_count > 0:
      if number_of_processes == 1:
          process_text = "process"
      else:
          process_text = "processes"
      Service.objects.update_service_for(
          region_obj, "regiond", SERVICE_STATUS.DEGRADED,
          "%d %s running but %d were expected." % (
              number_of_processes, process_text,
              NUMBER_OF_REGIOND_PROCESSES))
  else:
      Service.objects.update_service_for(
          region_obj, "regiond", SERVICE_STATUS.RUNNING, "")
  \<close>
  The subtraction is on Python integers, so it is done on \<open>int\<close>.
\<close>

definition number_of_processes :: "db \<Rightarrow> string \<Rightarrow> nat" where
  "number_of_processes d region = length (filter (\<lambda>p. rp_region p = region) (processes d))"

definition degraded_message :: "nat \<Rightarrow> string" where
  "degraded_message n =
     (let process_text = (if n = 1 then ''process'' else ''processes'')
      in str_nat n @ '' '' @ process_text @ '' running but ''
         @ str_nat NUMBER_OF_REGIOND_PROCESSES @ '' were expected.'')"

definition update_region_status :: "region_controller \<Rightarrow> db \<Rightarrow> error + db" where
  "update_region_status region_obj d =
     (let d1 = create_services_for (rc_system_id region_obj) d;
          n = number_of_processes d1 (rc_system_id region_obj);
          not_running_count = int NUMBER_OF_REGIOND_PROCESSES - int n
      in if not_running_count > 0
         then update_service_for (rc_system_id region_obj) ''regiond'' DEGRADED
                (degraded_message n) d1
         else update_service_for (rc_system_id region_obj) ''regiond'' RUNNING [] d1)"

text \<open>
  \<^verbatim>\<open>
  for other_region in RegionController.objects.exclude(
          system_id=self.region_id).prefetch_related("processes"):
      if len(other_region.processes.all()) == 0:
          Service.objects.mark_dead(other_region, dead_region=True)
  \<close>
\<close>

fun mark_dead_regions :: "region_controller list \<Rightarrow> db \<Rightarrow> error + db" where
  "mark_dead_regions [] d = Inr d"
| "mark_dead_regions (other_region # rest) d =
     (if number_of_processes d (rc_system_id other_region) = 0
      then (case mark_dead (rc_system_id other_region) d of
              Inl err \<Rightarrow> Inl err
            | Inr d' \<Rightarrow> mark_dead_regions rest d')
      else mark_dead_regions rest d)"

text \<open>
  The whole of \<^verbatim>\<open>update\<close>. It is \<^verbatim>\<open>@transactional\<close>: when any step raises, the
  transaction is rolled back and the caller is left with the exception and the store as
  it was; otherwise it returns the next interval and the new store.
\<close>

definition update ::
  "env \<Rightarrow> advertising \<Rightarrow> (string \<times> nat) list \<Rightarrow> db \<Rightarrow> error + (nat \<times> db)" where
  "update e adv addresses d =
     (case get_one (filter (\<lambda>r. rc_system_id r = region_id adv) (regions d)) of
        Inl err \<Rightarrow> Inl err
      | Inr region_obj \<Rightarrow>
          (case getRegionProcess e adv (save_region e region_obj d) of
             Inl err \<Rightarrow> Inl err
           | Inr (process, d2) \<Rightarrow>
               (case update_endpoints process addresses
                       (remove_dead_siblings e adv region_obj (remove_old_processes e d2)) of
                  Inl err \<Rightarrow> Inl err
                | Inr (interval, d5) \<Rightarrow>
                    (case update_region_status region_obj d5 of
                       Inl err \<Rightarrow> Inl err
                     | Inr d6 \<Rightarrow>
                         (case mark_dead_regions
                                 (filter (\<lambda>r. rc_system_id r \<noteq> region_id adv) (regions d6)) d6 of
                            Inl err \<Rightarrow> Inl err
                          | Inr d7 \<Rightarrow> Inr (interval, d7))))))"

section \<open>Random choice\<close>

text \<open>
  \<^verbatim>\<open>random.choice(seq)\<close> returns each position of a non-empty sequence with the same
  probability. A computation that draws is a finite distribution: the list of its
  outcomes, each with its probability. Every call of \<^verbatim>\<open>random.choice\<close> in the source
  stands behind a test that the sequence is not empty (\<^verbatim>\<open>len(conns) == 0\<close>,
  \<^verbatim>\<open>len(conns) > 0\<close>, \<^verbatim>\<open>assert len(connection) > 0\<close>), and so do the calls here.
\<close>

type_synonym 'a dist = "(rat \<times> 'a) list"

definition return_dist :: "'a \<Rightarrow> 'a dist" where
  "return_dist x = [(1, x)]"

definition bind_dist :: "'a dist \<Rightarrow> ('a \<Rightarrow> 'b dist) \<Rightarrow> 'b dist" where
  "bind_dist d f = concat (map (\<lambda>(p, x). map (\<lambda>(q, y). (p * q, y)) (f x)) d)"

definition random_choice :: "'a list \<Rightarrow> 'a dist" where
  "random_choice seq = map (\<lambda>x. (1 / of_nat (length seq), x)) seq"

text \<open>The probability of an outcome, and the outcomes that can happen at all.\<close>

definition prob :: "'a dist \<Rightarrow> 'a \<Rightarrow> rat" where
  "prob d x = sum_list (map fst (filter (\<lambda>(p, y). y = x) d))"

definition outcomes :: "'a dist \<Rightarrow> 'a set" where
  "outcomes d = snd ` set d"

text \<open>One run of a computation that draws: the outcome at position \<open>r\<close> of the list.\<close>

definition pick :: "nat \<Rightarrow> 'a dist \<Rightarrow> 'a" where
  "pick r d = snd (d ! (r mod length d))"

section \<open>The connection registry of \<^verbatim>\<open>RegionService\<close>\<close>

text \<open>
  A connection (a \<^verbatim>\<open>RegionServer\<close> protocol instance) and a waiter (a \<^verbatim>\<open>Deferred\<close>) are
  objects; they are named by numbers. A waiter's number is its position in the list of
  all the Deferreds made so far.
\<close>

type_synonym conn = nat
type_synonym waiter = nat

subsection \<open>\<^verbatim>\<open>defaultdict(set)\<close>\<close>

text \<open>
  \<^verbatim>\<open>self.connections\<close> and \<^verbatim>\<open>self.waiters\<close> are \<^verbatim>\<open>defaultdict(set)\<close>: a dictionary whose
  keys stay in the order of their insertion, and where reading a missing key inserts it
  with an empty set. A set is a list without duplicates. The source never deletes a key.
\<close>

type_synonym ('k, 'v) defaultdict = "('k \<times> 'v list) list"

definition dd_lookup :: "('k, 'v) defaultdict \<Rightarrow> 'k \<Rightarrow> 'v list" where
  "dd_lookup d k = (case map_of d k of None \<Rightarrow> [] | Some s \<Rightarrow> s)"

definition dd_touch :: "('k, 'v) defaultdict \<Rightarrow> 'k \<Rightarrow> ('k, 'v) defaultdict" where
  "dd_touch d k = (case map_of d k of None \<Rightarrow> d @ [(k, [])] | Some s \<Rightarrow> d)"

definition dd_apply ::
  "('k, 'v) defaultdict \<Rightarrow> 'k \<Rightarrow> ('v list \<Rightarrow> 'v list) \<Rightarrow> ('k, 'v) defaultdict" where
  "dd_apply d k f = map (\<lambda>(k', s). if k' = k then (k', f s) else (k', s)) (dd_touch d k)"

definition set_add :: "'v \<Rightarrow> 'v list \<Rightarrow> 'v list" where
  "set_add x s = (if x \<in> set s then s else s @ [x])"

definition set_discard :: "'v \<Rightarrow> 'v list \<Rightarrow> 'v list" where
  "set_discard x s = removeAll x s"

subsection \<open>Deferreds and the reactor\<close>

text \<open>
  The values a Deferred of the registry carries: a connection, the list that
  \<^verbatim>\<open>cb_conn_list\<close> makes of it, and \<^verbatim>\<open>common.Client(...)\<close> around either.
\<close>

datatype val = Connection conn | ConnList "conn list" | Client val

text \<open>
  The callbacks that the source adds to a waiter, in the order of their addition:
  \<^item> \<open>Timeout_done\<close>: \<^verbatim>\<open>done\<close> of \<^verbatim>\<open>deferWithTimeout\<close>, which cancels the timeout call;
  \<^item> \<open>Discard ident\<close>: \<^verbatim>\<open>d.addBoth(callOut, waiters.discard, d)\<close> of \<^verbatim>\<open>_getConnectionFor\<close>,
    where \<^verbatim>\<open>waiters\<close> is \<^verbatim>\<open>self.waiters[ident]\<close>;
  \<^item> \<open>Discard_all identifiers\<close>: \<^verbatim>\<open>d.addBoth(callOut, discard_all, self.waiters, identifiers, d)\<close>
    of \<^verbatim>\<open>_getConnectionFromIdentifiers\<close>;
  \<^item> \<open>Cb_conn_list\<close>: \<^verbatim>\<open>d.addCallback(cb_conn_list)\<close>;
  \<^item> \<open>Client_or_unavailable\<close>: \<^verbatim>\<open>d.addCallbacks(common.Client, cancelled)\<close> of
    \<^verbatim>\<open>getClientFor\<close>.
\<close>

datatype 'k callback =
    Timeout_done
  | Discard 'k
  | Discard_all "'k list"
  | Cb_conn_list
  | Client_or_unavailable

record 'k deferred =
  d_result :: "(error + val) option"
  d_callbacks :: "'k callback list"

datatype 'k notification = Connected 'k | Disconnected 'k

text \<open>
  The state of the service: the two dictionaries, every Deferred made so far, the
  reactor's pending delayed calls \<open>(time, waiter)\<close> (each is the call of \<^verbatim>\<open>d.cancel\<close>
  that \<^verbatim>\<open>deferWithTimeout\<close> schedules), the reactor's clock, and the notifications fired
  on \<^verbatim>\<open>self.events\<close> so far.
\<close>

record 'k registry =
  connections :: "('k, conn) defaultdict"
  waiters :: "('k, waiter) defaultdict"
  deferreds :: "'k deferred list"
  delayed_calls :: "(nat \<times> waiter) list"
  seconds :: nat
  events :: "'k notification list"

definition init_registry :: "'k registry" where
  "init_registry =
     \<lparr>connections = [], waiters = [], deferreds = [], delayed_calls = [], seconds = 0,
      events = []\<rparr>"

text \<open>
  One callback of a fired Deferred: it takes the current result and gives the next,
  and acts on the service.
  \<^verbatim>\<open>
  def done(result):
      if timeoutCall.active(): timeoutCall.cancel()
      return result
  def discard_all(waiters, identifiers, d):
      for ident in identifiers:
          waiters[ident].discard(d)
  def cb_conn_list(conn):
      return [conn]
  def cancelled(failure):
      failure.trap(CancelledError)
      raise exceptions.NoConnectionsAvailable(...)
  \<close>
  \<^verbatim>\<open>callOut(result, f, ...)\<close> calls \<^verbatim>\<open>f\<close> and hands \<^verbatim>\<open>result\<close> on unchanged;
  \<^verbatim>\<open>failure.trap\<close> raises the failure again when it is of another type.
\<close>

fun run_callback ::
  "waiter \<Rightarrow> 'k callback \<Rightarrow> (error + val) \<times> 'k registry \<Rightarrow> (error + val) \<times> 'k registry" where
  "run_callback w Timeout_done (r, st) =
     (r, st\<lparr>delayed_calls := filter (\<lambda>c. snd c \<noteq> w) (delayed_calls st)\<rparr>)"
| "run_callback w (Discard ident) (r, st) =
     (r, st\<lparr>waiters := dd_apply (waiters st) ident (set_discard w)\<rparr>)"
| "run_callback w (Discard_all identifiers) (r, st) =
     (r, fold (\<lambda>ident s. s\<lparr>waiters := dd_apply (waiters s) ident (set_discard w)\<rparr>)
           identifiers st)"
| "run_callback w Cb_conn_list (r, st) =
     (case r of
        Inr (Connection c) \<Rightarrow> (Inr (ConnList [c]), st)
      | _ \<Rightarrow> (r, st))"
| "run_callback w Client_or_unavailable (r, st) =
     (case r of
        Inr v \<Rightarrow> (Inr (Client v), st)
      | Inl err \<Rightarrow> (if err = CancelledError then (Inl NoConnectionsAvailable, st) else (r, st)))"

text \<open>
  Modelled from the spec: \<^verbatim>\<open>deferWithTimeout\<close> and \<^verbatim>\<open>callOut\<close> come from
  \<^verbatim>\<open>provisioningserver.utils.twisted\<close>, outside the source. The spec describes the
  waiter they make as "a timed, cancellable future": "create a waiter, bound it to
  timeout"; "if timeout elapses first, fail". \<^verbatim>\<open>deferWithTimeout(timeout)\<close> makes a new
  Deferred, schedules \<^verbatim>\<open>d.cancel\<close> at \<^verbatim>\<open>timeout\<close> seconds from now, and adds \<^verbatim>\<open>done\<close>.

  Firing a Deferred runs its callbacks in order, once. \<^verbatim>\<open>callback\<close> on a Deferred that
  has fired raises \<^verbatim>\<open>AlreadyCalledError\<close>; \<^verbatim>\<open>cancel\<close> on one is ignored, and on a pending
  one it fires it with \<^verbatim>\<open>CancelledError\<close>. A callback added to a Deferred that has fired
  runs at once.
\<close>

definition pending :: "'k registry \<Rightarrow> waiter \<Rightarrow> bool" where
  "pending st w = (w < length (deferreds st) \<and> d_result (deferreds st ! w) = None)"

definition new_deferred :: "'k deferred \<Rightarrow> 'k registry \<Rightarrow> waiter \<times> 'k registry" where
  "new_deferred d st = (length (deferreds st), st\<lparr>deferreds := deferreds st @ [d]\<rparr>)"

definition succeed :: "val \<Rightarrow> 'k registry \<Rightarrow> waiter \<times> 'k registry" where
  "succeed v st = new_deferred \<lparr>d_result = Some (Inr v), d_callbacks = []\<rparr> st"

definition deferWithTimeout :: "nat \<Rightarrow> 'k registry \<Rightarrow> waiter \<times> 'k registry" where
  "deferWithTimeout timeout st =
     (let (d, st1) = new_deferred \<lparr>d_result = None, d_callbacks = [Timeout_done]\<rparr> st
      in (d, st1\<lparr>delayed_calls := delayed_calls st1 @ [(seconds st1 + timeout, d)]\<rparr>))"

definition fire :: "waiter \<Rightarrow> error + val \<Rightarrow> 'k registry \<Rightarrow> 'k registry" where
  "fire w r st =
     (let (r', st') = fold (run_callback w) (d_callbacks (deferreds st ! w)) (r, st)
      in st'\<lparr>deferreds := (deferreds st')[w := \<lparr>d_result = Some r', d_callbacks = []\<rparr>]\<rparr>)"

definition callback :: "waiter \<Rightarrow> val \<Rightarrow> 'k registry \<Rightarrow> error + 'k registry" where
  "callback w v st = (if pending st w then Inr (fire w (Inr v) st) else Inl AlreadyCalledError)"

definition cancel :: "waiter \<Rightarrow> 'k registry \<Rightarrow> 'k registry" where
  "cancel w st = (if pending st w then fire w (Inl CancelledError) st else st)"

definition add_callback :: "waiter \<Rightarrow> 'k callback \<Rightarrow> 'k registry \<Rightarrow> 'k registry" where
  "add_callback w cb st =
     (let d = deferreds st ! w
      in case d_result d of
           None \<Rightarrow> st\<lparr>deferreds := (deferreds st)[w := d\<lparr>d_callbacks := d_callbacks d @ [cb]\<rparr>]\<rparr>
         | Some r \<Rightarrow>
             (let (r', st') = run_callback w cb (r, st)
              in st'\<lparr>deferreds := (deferreds st')[w := (deferreds st' ! w)\<lparr>d_result := Some r'\<rparr>]\<rparr>))"

text \<open>
  The reactor's clock moves on by \<open>dt\<close> seconds and the delayed calls that are due run,
  the earliest first; a call that was cancelled meanwhile does not run.
\<close>

definition run_delayed_call :: "nat \<times> waiter \<Rightarrow> 'k registry \<Rightarrow> 'k registry" where
  "run_delayed_call c st =
     (if c \<in> set (delayed_calls st)
      then cancel (snd c) (st\<lparr>delayed_calls := remove1 c (delayed_calls st)\<rparr>)
      else st)"

definition advance :: "nat \<Rightarrow> 'k registry \<Rightarrow> 'k registry" where
  "advance dt st =
     (let st1 = st\<lparr>seconds := seconds st + dt\<rparr>;
          due = sort_key fst (filter (\<lambda>c. fst c \<le> seconds st1) (delayed_calls st1))
      in fold run_delayed_call due st1)"

subsection \<open>\<^verbatim>\<open>_getConnectionFor\<close> and \<^verbatim>\<open>getClientFor\<close>\<close>

text \<open>
  \<^verbatim>\<open>
  conns = list(self.connections[ident])
  if len(conns) == 0:
      waiters = self.waiters[ident]
      d = deferWithTimeout(timeout)
      d.addBoth(callOut, waiters.discard, d)
      waiters.add(d)
      return d
  else:
      connection = random.choice(conns)
      return defer.succeed(connection)
  \<close>
  The result is the Deferred returned and the state of the service after the call.
\<close>

definition getConnectionFor :: "'k \<Rightarrow> nat \<Rightarrow> 'k registry \<Rightarrow> (waiter \<times> 'k registry) dist" where
  "getConnectionFor ident timeout st =
     (let st1 = st\<lparr>connections := dd_touch (connections st) ident\<rparr>;
          conns = dd_lookup (connections st1) ident
      in if length conns = 0 then
           (let st2 = st1\<lparr>waiters := dd_touch (waiters st1) ident\<rparr>;
                (d, st3) = deferWithTimeout timeout st2;
                st4 = add_callback d (Discard ident) st3;
                st5 = st4\<lparr>waiters := dd_apply (waiters st4) ident (set_add d)\<rparr>
            in return_dist (d, st5))
         else
           bind_dist (random_choice conns)
             (\<lambda>connection. return_dist (succeed (Connection connection) st1)))"

text \<open>
  \<^verbatim>\<open>
  d = self._getConnectionFor(system_id, timeout)
  return d.addCallbacks(common.Client, cancelled)
  \<close>
\<close>

definition getClientFor :: "'k \<Rightarrow> nat \<Rightarrow> 'k registry \<Rightarrow> (waiter \<times> 'k registry) dist" where
  "getClientFor system_id timeout st =
     bind_dist (getConnectionFor system_id timeout st)
       (\<lambda>(d, st'). return_dist (d, add_callback d Client_or_unavailable st'))"

subsection \<open>\<^verbatim>\<open>_getConnectionFromIdentifiers\<close>\<close>

text \<open>
  \<^verbatim>\<open>
  matched_connections = []
  for ident in identifiers:
      conns = list(self.connections[ident])
      if len(conns) > 0:
          matched_connections.append(random.choice(conns))
  \<close>
\<close>

fun match_connections ::
  "'k list \<Rightarrow> conn list \<Rightarrow> 'k registry \<Rightarrow> (conn list \<times> 'k registry) dist" where
  "match_connections [] matched_connections st = return_dist (matched_connections, st)"
| "match_connections (ident # rest) matched_connections st =
     (let st1 = st\<lparr>connections := dd_touch (connections st) ident\<rparr>;
          conns = dd_lookup (connections st1) ident
      in if length conns > 0
         then bind_dist (random_choice conns)
                (\<lambda>c. match_connections rest (matched_connections @ [c]) st1)
         else match_connections rest matched_connections st1)"

text \<open>
  \<^verbatim>\<open>
  if len(matched_connections) > 0:
      return defer.succeed(matched_connections)
  else:
      d = deferWithTimeout(timeout)
      d.addBoth(callOut, discard_all, self.waiters, identifiers, d)
      d.addCallback(cb_conn_list)
      for ident in identifiers:
          self.waiters[ident].add(d)
      return d
  \<close>
\<close>

definition getConnectionFromIdentifiers ::
  "'k list \<Rightarrow> nat \<Rightarrow> 'k registry \<Rightarrow> (waiter \<times> 'k registry) dist" where
  "getConnectionFromIdentifiers identifiers timeout st =
     bind_dist (match_connections identifiers [] st)
       (\<lambda>(matched_connections, st1).
          if length matched_connections > 0
          then return_dist (succeed (ConnList matched_connections) st1)
          else
            (let (d, st2) = deferWithTimeout timeout st1;
                 st3 = add_callback d (Discard_all identifiers) st2;
                 st4 = add_callback d Cb_conn_list st3;
                 st5 = fold (\<lambda>ident s. s\<lparr>waiters := dd_apply (waiters s) ident (set_add d)\<rparr>)
                         identifiers st4
             in return_dist (d, st5)))"

subsection \<open>\<^verbatim>\<open>_addConnectionFor\<close> and \<^verbatim>\<open>_removeConnectionFor\<close>\<close>

text \<open>
  \<^verbatim>\<open>
  self.connections[ident].add(connection)
  for waiter in self.waiters[ident].copy():
      waiter.callback(connection)
  self.events.connected.fire(ident)
  \<close>
  The result is the exception raised, if any, and the state the call leaves behind.
\<close>

fun notify_waiters :: "waiter list \<Rightarrow> conn \<Rightarrow> 'k registry \<Rightarrow> error option \<times> 'k registry" where
  "notify_waiters [] connection st = (None, st)"
| "notify_waiters (waiter # rest) connection st =
     (case callback waiter (Connection connection) st of
        Inl err \<Rightarrow> (Some err, st)
      | Inr st' \<Rightarrow> notify_waiters rest connection st')"

definition addConnectionFor :: "'k \<Rightarrow> conn \<Rightarrow> 'k registry \<Rightarrow> error option \<times> 'k registry" where
  "addConnectionFor ident connection st =
     (let st1 = st\<lparr>connections := dd_apply (connections st) ident (set_add connection)\<rparr>;
          st2 = st1\<lparr>waiters := dd_touch (waiters st1) ident\<rparr>
      in case notify_waiters (dd_lookup (waiters st2) ident) connection st2 of
           (Some err, st3) \<Rightarrow> (Some err, st3)
         | (None, st3) \<Rightarrow> (None, st3\<lparr>events := events st3 @ [Connected ident]\<rparr>))"

text \<open>
  \<^verbatim>\<open>
  self.connections[ident].discard(connection)
  self.events.disconnected.fire(ident)
  \<close>
\<close>

definition removeConnectionFor :: "'k \<Rightarrow> conn \<Rightarrow> 'k registry \<Rightarrow> 'k registry" where
  "removeConnectionFor ident connection st =
     st\<lparr>connections := dd_apply (connections st) ident (set_discard connection),
        events := events st @ [Disconnected ident]\<rparr>"

subsection \<open>\<^verbatim>\<open>getRandomClient\<close>\<close>

text \<open>
  \<^verbatim>\<open>
  connections = list(self.connections.values())
  if len(connections) == 0:
      raise exceptions.NoConnectionsAvailable(...)
  else:
      connection = random.choice(connections)
      assert len(connection) > 0, "Connection set empty."
      return common.Client(random.choice(list(connection)))
  \<close>
\<close>

definition getRandomClient :: "'k registry \<Rightarrow> (error + val) dist" where
  "getRandomClient st =
     (let conns = map snd (connections st)
      in if length conns = 0 then return_dist (Inl NoConnectionsAvailable)
         else bind_dist (random_choice conns)
                (\<lambda>connection.
                   if \<not> length connection > 0 then return_dist (Inl AssertionError)
                   else bind_dist (random_choice connection)
                          (\<lambda>c. return_dist (Inr (Client (Connection c))))))"

subsection \<open>What happens to the service, one event after another\<close>

text \<open>
  The calls that reach the registry, in the order in which the event loop runs them: a
  connection is added or removed, a caller asks for a connection (the number \<open>r\<close> says
  which outcome of the random choice happened), a caller cancels the Deferred it holds
  (as does \<^verbatim>\<open>stopService\<close>, for every waiter), and time passes.
\<close>

datatype 'k event =
    Register 'k conn
  | Unregister 'k conn
  | Get 'k nat nat
  | GetAny "'k list" nat nat
  | Cancel waiter
  | Advance nat

fun step :: "'k event \<Rightarrow> 'k registry \<Rightarrow> 'k registry" where
  "step (Register ident c) st = snd (addConnectionFor ident c st)"
| "step (Unregister ident c) st = removeConnectionFor ident c st"
| "step (Get ident timeout r) st = snd (pick r (getClientFor ident timeout st))"
| "step (GetAny identifiers timeout r) st =
     snd (pick r (getConnectionFromIdentifiers identifiers timeout st))"
| "step (Cancel w) st = cancel w st"
| "step (Advance dt) st = advance dt st"

definition run :: "'k event list \<Rightarrow> 'k registry \<Rightarrow> 'k registry" where
  "run evs st = fold step evs st"

section \<open>\<^verbatim>\<open>RegionServer._register\<close>\<close>

text \<open>
  The protocol instance: its identity as an object, and the attributes \<^verbatim>\<open>ident\<close>
  (\<^verbatim>\<open>None\<close> until \<^verbatim>\<open>initResponder\<close> sets it) and \<^verbatim>\<open>hostIsRemote\<close>. The registry's keys are
  the values of \<^verbatim>\<open>ident\<close>, so they are of type \<open>string option\<close> here.
\<close>

record protocol =
  p_conn :: conn
  p_ident :: "string option"
  p_hostIsRemote :: bool

text \<open>
  What the collaborators of one registration do: each either returns or raises.
  \<^verbatim>\<open>rackcontrollers.register\<close> returns the rack controller, of which the source reads the
  \<^verbatim>\<open>system_id\<close>; \<^verbatim>\<open>isinstance(self.host, (IPv4Address, IPv6Address))\<close> is a boolean.
\<close>

record registration =
  reg_isLoopbackURL :: "error option"
  reg_register :: "error + string"
  reg_handle_upgrade :: "error option"
  reg_host_is_remote :: bool
  reg_advertising_get :: "error option"
  reg_getRegionProcess :: "error option"
  reg_registerConnection :: "error option"

text \<open>
  \<^verbatim>\<open>
  self.ident = rack_controller.system_id
  self.factory.service._addConnectionFor(self.ident, self)
  self.host = self.transport.getHost()
  self.hostIsRemote = isinstance(self.host, (IPv4Address, IPv6Address))
  if self.hostIsRemote:
      advertising = yield (self.factory.service.advertiser.advertising.get())
      process = yield deferToDatabase(advertising.getRegionProcess)
      yield deferToDatabase(
          advertising.registerConnection, process, rack_controller, self.host)
  \<close>
\<close>

definition initResponder ::
  "registration \<Rightarrow> string \<Rightarrow> protocol \<Rightarrow> string option registry
     \<Rightarrow> error option \<times> protocol \<times> string option registry" where
  "initResponder reg system_id p st =
     (let p1 = p\<lparr>p_ident := Some system_id\<rparr>
      in case addConnectionFor (p_ident p1) (p_conn p1) st of
           (Some err, st1) \<Rightarrow> (Some err, p1, st1)
         | (None, st1) \<Rightarrow>
             (let p2 = p1\<lparr>p_hostIsRemote := reg_host_is_remote reg\<rparr>
              in if p_hostIsRemote p2 then
                   (case reg_advertising_get reg of
                      Some err \<Rightarrow> (Some err, p2, st1)
                    | None \<Rightarrow>
                        (case reg_getRegionProcess reg of
                           Some err \<Rightarrow> (Some err, p2, st1)
                         | None \<Rightarrow> (reg_registerConnection reg, p2, st1)))
                 else (None, p2, st1)))"

text \<open>
  The body of the \<^verbatim>\<open>try\<close> of \<^verbatim>\<open>_register\<close>:
  \<^verbatim>\<open>
  is_loopback = yield isLoopbackURL(url)
  rack_controller = yield deferToDatabase(rackcontrollers.register, ...)
  if nodegroup_uuid is not None:
      yield deferToDatabase(
          rackcontrollers.handle_upgrade, rack_controller, nodegroup_uuid)
  yield self.initResponder(rack_controller)
  \<close>
\<close>

definition register_try ::
  "registration \<Rightarrow> bool \<Rightarrow> protocol \<Rightarrow> string option registry
     \<Rightarrow> error option \<times> protocol \<times> string option registry" where
  "register_try reg has_nodegroup_uuid p st =
     (case reg_isLoopbackURL reg of
        Some err \<Rightarrow> (Some err, p, st)
      | None \<Rightarrow>
          (case reg_register reg of
             Inl err \<Rightarrow> (Some err, p, st)
           | Inr system_id \<Rightarrow>
               (case (if has_nodegroup_uuid then reg_handle_upgrade reg else None) of
                  Some err \<Rightarrow> (Some err, p, st)
                | None \<Rightarrow> initResponder reg system_id p st)))"

text \<open>
  \<^verbatim>\<open>
  try: ...
  except:
      self.factory.service._removeConnectionFor(self.ident, self)
      ...
      raise exceptions.CannotRegisterRackController(msg)
  else:
      return {'system_id': self.ident}
  \<close>
\<close>

definition register ::
  "registration \<Rightarrow> bool \<Rightarrow> protocol \<Rightarrow> string option registry
     \<Rightarrow> (error + string option) \<times> protocol \<times> string option registry" where
  "register reg has_nodegroup_uuid p st =
     (case register_try reg has_nodegroup_uuid p st of
        (Some err, p', st') \<Rightarrow>
          (Inl CannotRegisterRackController, p',
           removeConnectionFor (p_ident p') (p_conn p') st')
      | (None, p', st') \<Rightarrow> (Inr (p_ident p'), p', st'))"

section \<open>\<^verbatim>\<open>RegionAdvertisingService\<close>: promotion\<close>

text \<open>
  What one call of \<^verbatim>\<open>RegionAdvertising.promote\<close> does: it returns the
  \<^verbatim>\<open>RegionAdvertising\<close> instance, or raises \<^verbatim>\<open>RegionController.DoesNotExist\<close>, or raises
  anything else.
\<close>

datatype promote_outcome = Promoted advertising | RegionDoesNotExist | PromoteFailed

datatype action = Pause nat | LogErr

text \<open>
  \<^verbatim>\<open>
  while self.running:
      try:
          advertising = yield deferToDatabase(RegionAdvertising.promote)
      except RegionController.DoesNotExist:
          yield pause(1)
      except:
          log.err(None, ("Promotion of %s failed; will try again in "
                         "5 seconds." % (eventloop.loop.name,)))
          yield pause(5)
      else:
          returnValue(advertising)
  else:
      raise defer.CancelledError()
  \<close>
  The loop may run forever. \<open>running i\<close> is the value of \<^verbatim>\<open>self.running\<close> at test number
  \<open>i\<close> of the loop's condition and \<open>attempt i\<close> is what call number \<open>i\<close> of \<^verbatim>\<open>promote\<close>
  does. The first argument bounds the number of tests: the result \<open>None\<close> says that the
  loop is still running after that many. With it come the pauses and log entries made
  so far.
\<close>

fun tryPromote ::
  "nat \<Rightarrow> (nat \<Rightarrow> bool) \<Rightarrow> (nat \<Rightarrow> promote_outcome) \<Rightarrow> nat \<Rightarrow> action list
     \<Rightarrow> action list \<times> (error + advertising) option" where
  "tryPromote 0 running attempt i done = (done, None)"
| "tryPromote (Suc fuel) running attempt i done =
     (if running i then
        (case attempt i of
           Promoted advertising \<Rightarrow> (done, Some (Inr advertising))
         | RegionDoesNotExist \<Rightarrow> tryPromote fuel running attempt (Suc i) (done @ [Pause 1])
         | PromoteFailed \<Rightarrow>
             tryPromote fuel running attempt (Suc i) (done @ [LogErr, Pause 5]))
      else (done, Some (Inl CancelledError)))"

text \<open>
  The service's attributes that start-up writes: the \<^verbatim>\<open>DeferredValue\<close>
  \<^verbatim>\<open>self.advertising\<close>, whether the advertising loop was started, and the failures logged.
\<close>

record advertising_service =
  as_advertising :: "(error + advertising) option"
  as_advertiser_started :: bool
  as_log :: "string list"

text \<open>
  The callbacks of \<^verbatim>\<open>startService\<close> on the result of \<^verbatim>\<open>_tryPromote\<close>:
  \<^verbatim>\<open>
  self.starting.addCallback(call, self._tryPromote)
  self.starting.addCallbacks(self._promotionOkay, self._promotionFailed)
  self.starting.addCallback(callOut, self._startAdvertising)
  self.starting.addErrback(ignoreCancellation)
  self.starting.addErrback(log.err, "Failure starting advertising service.")
  \<close>
  The result is what the Deferred \<^verbatim>\<open>self.starting\<close> ends with, which is what a caller of
  \<^verbatim>\<open>startService\<close> sees.
\<close>

definition promotionOkay_or_Failed ::
  "error + advertising \<Rightarrow> advertising_service \<Rightarrow> (error + unit) \<times> advertising_service" where
  "promotionOkay_or_Failed r s =
     (case r of
        Inr advertising \<Rightarrow> (Inr (), s\<lparr>as_advertising := Some (Inr advertising)\<rparr>)
      | Inl failure \<Rightarrow> (Inl failure, s\<lparr>as_advertising := Some (Inl failure)\<rparr>))"

definition startAdvertising ::
  "(error + unit) \<times> advertising_service \<Rightarrow> (error + unit) \<times> advertising_service" where
  "startAdvertising rs =
     (case fst rs of
        Inr _ \<Rightarrow> (fst rs, (snd rs)\<lparr>as_advertiser_started := True\<rparr>)
      | Inl _ \<Rightarrow> rs)"

definition ignoreCancellation ::
  "(error + unit) \<times> advertising_service \<Rightarrow> (error + unit) \<times> advertising_service" where
  "ignoreCancellation rs =
     (case fst rs of
        Inl failure \<Rightarrow> (if failure = CancelledError then (Inr (), snd rs) else rs)
      | Inr _ \<Rightarrow> rs)"

definition log_err ::
  "string \<Rightarrow> (error + unit) \<times> advertising_service \<Rightarrow> (error + unit) \<times> advertising_service" where
  "log_err msg rs =
     (case fst rs of
        Inl failure \<Rightarrow> (Inr (), (snd rs)\<lparr>as_log := as_log (snd rs) @ [msg]\<rparr>)
      | Inr _ \<Rightarrow> rs)"

definition startService_finish ::
  "error + advertising \<Rightarrow> advertising_service \<Rightarrow> (error + unit) \<times> advertising_service" where
  "startService_finish r s =
     log_err ''Failure starting advertising service.''
       (ignoreCancellation (startAdvertising (promotionOkay_or_Failed r s)))"

section \<open>Properties of the registry's states\<close>

text \<open>The sessions that a Deferred's value carries.\<close>

fun conns_of :: "val \<Rightarrow> conn list" where
  "conns_of (Connection c) = [c]"
| "conns_of (ConnList cs) = cs"
| "conns_of (Client v) = conns_of v"

text \<open>
  The identities from whose waiter sets a callback discards the waiter, and so the
  identities under which a pending waiter was added: \<^verbatim>\<open>_getConnectionFor\<close> and
  \<^verbatim>\<open>_getConnectionFromIdentifiers\<close> add a waiter to the sets of the very identities
  that its discarding callback names.
\<close>

fun discard_idents :: "'k callback \<Rightarrow> 'k set" where
  "discard_idents (Discard ident) = {ident}"
| "discard_idents (Discard_all identifiers) = set identifiers"
| "discard_idents Timeout_done = {}"
| "discard_idents Cb_conn_list = {}"
| "discard_idents Client_or_unavailable = {}"

definition registered_under :: "'k registry \<Rightarrow> waiter \<Rightarrow> 'k set" where
  "registered_under st w = (\<Union>cb \<in> set (d_callbacks (deferreds st ! w)). discard_idents cb)"

text \<open>
  A waiter is in the waiter set of an identity exactly when it is pending and was added
  under that identity.
\<close>

definition waiters_consistent :: "'k registry \<Rightarrow> bool" where
  "waiters_consistent st =
     (\<forall>k w. w \<in> set (dd_lookup (waiters st) k) \<longleftrightarrow> pending st w \<and> k \<in> registered_under st w)"

text \<open>Every set of sessions is a set: no session is in it twice.\<close>

definition connections_distinct :: "'k registry \<Rightarrow> bool" where
  "connections_distinct st = (\<forall>k. distinct (dd_lookup (connections st) k))"

definition waiters_distinct :: "'k registry \<Rightarrow> bool" where
  "waiters_distinct st = (\<forall>k. distinct (dd_lookup (waiters st) k))"

text \<open>A Deferred that has fired: satisfied, timed out or cancelled.\<close>

definition resolved :: "'k registry \<Rightarrow> waiter \<Rightarrow> bool" where
  "resolved st w = (w < length (deferreds st) \<and> d_result (deferreds st ! w) \<noteq> None)"

text \<open>
  A waiter made by \<^verbatim>\<open>getClientFor\<close> for an identity that is still waiting, with its
  timeout call scheduled at time \<open>t\<close>; and a waiter that has failed with
  \<^verbatim>\<open>NoConnectionsAvailable\<close>.
\<close>

definition waiting_for :: "'k registry \<Rightarrow> waiter \<Rightarrow> 'k \<Rightarrow> nat \<Rightarrow> bool" where
  "waiting_for st w ident t =
     (pending st w
      \<and> d_callbacks (deferreds st ! w) = [Timeout_done, Discard ident, Client_or_unavailable]
      \<and> (t, w) \<in> set (delayed_calls st))"

definition unavailable :: "'k registry \<Rightarrow> waiter \<Rightarrow> bool" where
  "unavailable st w =
     (w < length (deferreds st)
      \<and> d_result (deferreds st ! w) = Some (Inl NoConnectionsAvailable))"

text \<open>
  What the caller of \<^verbatim>\<open>getClientFor\<close> has in hand when the call returns: the result of
  the returned Deferred, \<open>None\<close> while it is pending.
\<close>

definition result_of :: "waiter \<times> 'k registry \<Rightarrow> (error + val) option" where
  "result_of x = d_result (deferreds (snd x) ! fst x)"

definition map_dist :: "('a \<Rightarrow> 'b) \<Rightarrow> 'a dist \<Rightarrow> 'b dist" where
  "map_dist f d = map (\<lambda>(p, x). (p, f x)) d"

section \<open>The backoff of promotion, in the spec's words\<close>

text \<open>
  "1 second if the parent region-controller record does not exist yet, 5 seconds on any
  other error"; the source logs the other errors before it pauses.
\<close>

fun spec_backoff :: "promote_outcome \<Rightarrow> action list" where
  "spec_backoff (Promoted a) = []"
| "spec_backoff RegionDoesNotExist = [Pause 1]"
| "spec_backoff PromoteFailed = [LogErr, Pause 5]"

section \<open>Concrete stores and services\<close>

text \<open>
  A store with one region controller \<^verbatim>\<open>r1\<close> and the one Presence Record of the process
  with pid 42 on it, and the \<^verbatim>\<open>RegionAdvertising\<close> instance of that process.
\<close>

definition example_env :: env where
  "example_env =
     \<lparr>now = 1000000000, getpid = 42, gethostname = ''region-a'', maas_id = ''r1'',
      is_pid_running = (\<lambda>pid. True)\<rparr>"

definition example_advertising :: advertising where
  "example_advertising = \<lparr>region_id = ''r1'', process_id = 1\<rparr>"

definition example_db :: db where
  "example_db =
     \<lparr>regions = [\<lparr>rc_system_id = ''r1'', rc_hostname = ''region-a'', rc_updated = 0\<rparr>],
      processes =
        [\<lparr>rp_id = 1, rp_region = ''r1'', rp_pid = 42, rp_created = 0, rp_updated = 0\<rparr>],
      endpoints = [], services = [], next_endpoint_id = 1\<rparr>"

text \<open>
  A service to which rack controller \<^verbatim>\<open>rack-a\<close> has one connection and \<^verbatim>\<open>rack-b\<close> two;
  one with a single connection; and one where two callers wait for \<^verbatim>\<open>rack-a\<close>.
\<close>

definition three_sessions :: "string registry" where
  "three_sessions =
     run [Register ''rack-a'' 1, Register ''rack-b'' 2, Register ''rack-b'' 3] init_registry"

definition one_session :: "string registry" where
  "one_session = run [Register ''rack-a'' 1] init_registry"

definition two_waiters :: "string registry" where
  "two_waiters = run [Get ''rack-a'' 30 0, Get ''rack-a'' 30 0] init_registry"

text \<open>
  A registration whose last step, \<^verbatim>\<open>registerConnection\<close>, raises, on a connection that
  has no identity yet.
\<close>

definition failing_registration :: registration where
  "failing_registration =
     \<lparr>reg_isLoopbackURL = None, reg_register = Inr ''rack-a'', reg_handle_upgrade = None,
      reg_host_is_remote = True, reg_advertising_get = None, reg_getRegionProcess = None,
      reg_registerConnection = Some OtherError\<rparr>"

definition new_protocol :: protocol where
  "new_protocol = \<lparr>p_conn = 1, p_ident = None, p_hostIsRemote = False\<rparr>"

section \<open>Demotion\<close>

lemma get_one_simps [simp]:
  "get_one [] = Inl DoesNotExist"
  "get_one [x] = Inr x"
  "get_one (x # y # zs) = Inl MultipleObjectsReturned"
  by (simp_all add: get_one_def)

text \<open>
  C9, as stated, fails: \<^verbatim>\<open>demote\<close> is not idempotent. On the store with the region
  controller and this process's one record, the first \<^verbatim>\<open>demote\<close> deletes the record; the
  second finds the region controller, no record for it, and \<^verbatim>\<open>.get(...)\<close> raises
  \<^verbatim>\<open>DoesNotExist\<close>.
\<close>

theorem demote_twice_counterexample:
  "demote example_env example_advertising example_db = Inr (example_db\<lparr>processes := []\<rparr>)
   \<and> demote example_env example_advertising (example_db\<lparr>processes := []\<rparr>) = Inl DoesNotExist"
  by (simp add: demote_def example_env_def example_advertising_def example_db_def
      delete_processes_def)

text \<open>
  C9, amended: \<^verbatim>\<open>demote\<close> succeeds and changes nothing when no node has the region id;
  with the region controller's row there, it deletes the one Presence Record of this
  region and pid, and raises \<^verbatim>\<open>DoesNotExist\<close> when there is none (zero matching
  Presence Records is an error; zero matching region controllers is not).
\<close>

theorem demote_on_its_record:
  "(filter (\<lambda>r. rc_system_id r = region_id adv) (regions d) = [] \<longrightarrow> demote e adv d = Inr d)
   \<and> (\<forall>region_obj.
        filter (\<lambda>r. rc_system_id r = region_id adv) (regions d) = [region_obj]
        \<and> filter (\<lambda>p. rp_region p = region_id adv \<and> rp_pid p = getpid e) (processes d) = []
        \<longrightarrow> demote e adv d = Inl DoesNotExist)
   \<and> (\<forall>region_obj process.
        filter (\<lambda>r. rc_system_id r = region_id adv) (regions d) = [region_obj]
        \<and> filter (\<lambda>p. rp_region p = region_id adv \<and> rp_pid p = getpid e) (processes d)
            = [process]
        \<longrightarrow> (\<exists>d'. demote e adv d = Inr d'
               \<and> d' = delete_processes (\<lambda>p. rp_id p = rp_id process) d
               \<and> process \<notin> set (processes d')
               \<and> set (processes d') \<subseteq> set (processes d)))"
proof (intro conjI allI impI)
  assume "filter (\<lambda>r. rc_system_id r = region_id adv) (regions d) = []"
  then show "demote e adv d = Inr d" by (simp add: demote_def)
next
  fix region_obj
  assume a: "filter (\<lambda>r. rc_system_id r = region_id adv) (regions d) = [region_obj]
        \<and> filter (\<lambda>p. rp_region p = region_id adv \<and> rp_pid p = getpid e) (processes d) = []"
  then have "region_obj \<in> set (filter (\<lambda>r. rc_system_id r = region_id adv) (regions d))"
    by simp
  then have r: "rc_system_id region_obj = region_id adv" by simp
  show "demote e adv d = Inl DoesNotExist" using a by (simp add: demote_def r)
next
  fix region_obj process
  assume a: "filter (\<lambda>r. rc_system_id r = region_id adv) (regions d) = [region_obj]
        \<and> filter (\<lambda>p. rp_region p = region_id adv \<and> rp_pid p = getpid e) (processes d)
            = [process]"
  then have "region_obj \<in> set (filter (\<lambda>r. rc_system_id r = region_id adv) (regions d))"
    by simp
  then have r: "rc_system_id region_obj = region_id adv" by simp
  show "\<exists>d'. demote e adv d = Inr d'
               \<and> d' = delete_processes (\<lambda>p. rp_id p = rp_id process) d
               \<and> process \<notin> set (processes d')
               \<and> set (processes d') \<subseteq> set (processes d)"
    using a by (auto simp add: demote_def r delete_processes_def)
qed

theorem demote_on_its_record_witness:
  "demote example_env example_advertising example_db = Inr (example_db\<lparr>processes := []\<rparr>)
   \<and> demote example_env example_advertising (example_db\<lparr>processes := []\<rparr>) = Inl DoesNotExist
   \<and> demote example_env example_advertising (example_db\<lparr>regions := []\<rparr>)
       = Inr (example_db\<lparr>regions := []\<rparr>)"
  using demote_on_its_record [of example_advertising example_db example_env]
        demote_on_its_record [of example_advertising "example_db\<lparr>processes := []\<rparr>" example_env]
        demote_on_its_record [of example_advertising "example_db\<lparr>regions := []\<rparr>" example_env]
  by (simp add: example_env_def example_advertising_def example_db_def delete_processes_def)

section \<open>Probabilities of outcomes\<close>

lemma prob_Nil [simp]: "prob [] x = 0"
  by (simp add: prob_def)

lemma prob_Cons [simp]: "prob ((p, y) # d) x = (if y = x then p else 0) + prob d x"
  by (simp add: prob_def)

lemma prob_append [simp]: "prob (d @ d') x = prob d x + prob d' x"
  by (simp add: prob_def)

lemma prob_return: "prob (return_dist y) x = (if y = x then 1 else 0)"
  by (simp add: return_dist_def)

lemma prob_scale: "prob (map (\<lambda>(q, y). (p * q, y)) d) x = p * prob d x"
  by (induction d) (auto simp: algebra_simps)

lemma prob_bind: "prob (bind_dist d f) x = (\<Sum>(p, y)\<leftarrow>d. p * prob (f y) x)"
  by (induction d) (auto simp: bind_dist_def prob_scale)

lemma prob_const_weights: "prob (map (\<lambda>y. (w, y)) xs) x = w * of_nat (count_list xs x)"
  by (induction xs) (auto simp: algebra_simps)

lemma prob_random_choice:
  "prob (random_choice xs) x = of_nat (count_list xs x) / of_nat (length xs)"
  by (simp add: random_choice_def prob_const_weights)

lemma sum_list_const_weights:
  "(\<Sum>(p, y)\<leftarrow>map (\<lambda>y. (w, y)) xs. p * g y) = (\<Sum>y\<leftarrow>xs. w * g y)"
  by (induction xs) auto

lemma prob_bind_random_choice:
  "prob (bind_dist (random_choice xs) f) x
     = (\<Sum>y\<leftarrow>xs. (1 / of_nat (length xs)) * prob (f y) x)"
  by (simp add: prob_bind random_choice_def sum_list_const_weights o_def)

lemma sum_list_indicator:
  "(\<Sum>y\<leftarrow>s. prob (return_dist (Inr (Client (Connection y))))
             (Inr (Client (Connection c)) :: error + val) / w)
     = of_nat (count_list s c) / w"
  by (induction s) (auto simp: prob_return add_divide_distrib)

lemma prob_getRandomClient:
  assumes "connections st \<noteq> []" and "\<forall>s \<in> set (map snd (connections st)). s \<noteq> []"
  shows "prob (getRandomClient st) (Inr (Client (Connection c)))
     = (\<Sum>s\<leftarrow>map snd (connections st).
          (1 / of_nat (length (connections st))) * (of_nat (count_list s c) / of_nat (length s)))"
proof -
  have "(\<Sum>s\<leftarrow>map snd (connections st). (1 / of_nat (length (map snd (connections st)))) *
           prob (if \<not> length s > 0 then return_dist (Inl AssertionError)
                   else bind_dist (random_choice s) (\<lambda>c. return_dist (Inr (Client (Connection c)))))
             (Inr (Client (Connection c))))
      = (\<Sum>s\<leftarrow>map snd (connections st).
          (1 / of_nat (length (connections st))) * (of_nat (count_list s c) / of_nat (length s)))"
  proof (rule arg_cong [where f = sum_list], rule map_cong [OF refl])
    fix s assume "s \<in> set (map snd (connections st))"
    then have ne: "s \<noteq> []" using assms(2) by blast
    have "(\<Sum>y\<leftarrow>s. (1 / of_nat (length s)) * prob (return_dist (Inr (Client (Connection y)))) (Inr (Client (Connection c)) :: error + val))
           = of_nat (count_list s c) / of_nat (length s)"
      by (simp add: sum_list_indicator)
    then show "1 / of_nat (length (map snd (connections st))) *
         prob (if \<not> 0 < length s then return_dist (Inl AssertionError)
               else bind_dist (random_choice s) (\<lambda>c. return_dist (Inr (Client (Connection c)))))
          (Inr (Client (Connection c))) =
         1 / of_nat (length (connections st)) * (of_nat (count_list s c) / of_nat (length s))"
      using ne by (simp add: prob_bind_random_choice)
  qed
  then show ?thesis
    using assms(1) by (simp add: getRandomClient_def Let_def prob_bind_random_choice)
qed

section \<open>The registry on concrete states; \<^verbatim>\<open>getRandomClient\<close>\<close>

lemmas registry_eval =
  run_def init_registry_def addConnectionFor_def removeConnectionFor_def getClientFor_def
  getConnectionFor_def getConnectionFromIdentifiers_def deferWithTimeout_def new_deferred_def
  succeed_def add_callback_def fire_def callback_def cancel_def pending_def advance_def
  run_delayed_call_def dd_lookup_def dd_touch_def dd_apply_def set_add_def set_discard_def
  return_dist_def bind_dist_def random_choice_def pick_def Let_def

lemma three_sessions_eq:
  "three_sessions =
     \<lparr>connections = [(''rack-a'', [1]), (''rack-b'', [2, 3])],
      waiters = [(''rack-a'', []), (''rack-b'', [])],
      deferreds = [], delayed_calls = [], seconds = 0,
      events = [Connected ''rack-a'', Connected ''rack-b'', Connected ''rack-b'']\<rparr>"
  by (simp add: three_sessions_def registry_eval)

lemma one_session_eq:
  "one_session =
     \<lparr>connections = [(''rack-a'', [1])], waiters = [(''rack-a'', [])],
      deferreds = [], delayed_calls = [], seconds = 0, events = [Connected ''rack-a'']\<rparr>"
  by (simp add: one_session_def registry_eval)

lemma two_waiters_eq:
  "two_waiters =
     \<lparr>connections = [(''rack-a'', [])], waiters = [(''rack-a'', [0, 1])],
      deferreds =
        [\<lparr>d_result = None,
          d_callbacks = [Timeout_done, Discard ''rack-a'', Client_or_unavailable]\<rparr>,
         \<lparr>d_result = None,
          d_callbacks = [Timeout_done, Discard ''rack-a'', Client_or_unavailable]\<rparr>],
      delayed_calls = [(30, 0), (30, 1)], seconds = 0, events = []\<rparr>"
  by (simp add: two_waiters_def registry_eval)

lemma outcomes_return [simp]: "outcomes (return_dist x) = {x}"
  by (simp add: outcomes_def return_dist_def)

lemma outcomes_Nil [simp]: "outcomes [] = {}"
  by (simp add: outcomes_def)

lemma outcomes_Cons [simp]: "outcomes (px # d) = insert (snd px) (outcomes d)"
  by (simp add: outcomes_def)

lemma outcomes_append [simp]: "outcomes (d @ d') = outcomes d \<union> outcomes d'"
  by (simp add: outcomes_def image_Un)

lemma outcomes_random_choice [simp]: "outcomes (random_choice xs) = set xs"
  by (simp add: outcomes_def random_choice_def image_image)

lemma outcomes_scale: "outcomes (map (\<lambda>(q, y). (p * q, y)) d) = outcomes d"
  by (simp add: outcomes_def image_image case_prod_beta)

lemma outcomes_bind: "outcomes (bind_dist d f) = (\<Union>x \<in> outcomes d. outcomes (f x))"
proof (induction d)
  case Nil
  then show ?case by (simp add: bind_dist_def)
next
  case (Cons px d)
  have "bind_dist (px # d) f = map (\<lambda>(q, y). (fst px * q, y)) (f (snd px)) @ bind_dist d f"
    by (simp add: bind_dist_def case_prod_beta)
  then show ?case using Cons by (simp add: outcomes_scale)
qed

text \<open>
  C3, as stated, fails: the choice is not uniform across the union of the sessions.
  With one session for \<^verbatim>\<open>rack-a\<close> and two for \<^verbatim>\<open>rack-b\<close>, the session of \<^verbatim>\<open>rack-a\<close> is
  returned with probability 1/2 and each session of \<^verbatim>\<open>rack-b\<close> with probability 1/4.
\<close>

theorem getRandomClient_not_uniform_counterexample:
  "prob (getRandomClient three_sessions) (Inr (Client (Connection 1))) = 1 / 2
   \<and> prob (getRandomClient three_sessions) (Inr (Client (Connection 2))) = 1 / 4
   \<and> prob (getRandomClient three_sessions) (Inr (Client (Connection 3))) = 1 / 4"
  by (simp add: three_sessions_eq getRandomClient_def return_dist_def bind_dist_def
      random_choice_def)

text \<open>
  The dictionary keeps the key of an identity whose last session was removed, with an
  empty set; when the first choice falls on it, the assertion fails.
\<close>

lemma getRandomClient_empty_set:
  "getRandomClient (removeConnectionFor ''rack-a'' 1 one_session) = [(1, Inl AssertionError)]"
  by (simp add: one_session_eq getRandomClient_def registry_eval)

lemma count_list_distinct: "distinct s \<Longrightarrow> c \<in> set s \<Longrightarrow> count_list s c = 1"
  by (induction s) auto

lemma sum_list_zero: "(\<And>x. x \<in> set xs \<Longrightarrow> f x = (0::rat)) \<Longrightarrow> (\<Sum>x\<leftarrow>xs. f x) = 0"
  by (induction xs) auto

text \<open>
  C3, amended: \<^verbatim>\<open>getRandomClient\<close> fails with \<^verbatim>\<open>NoConnectionsAvailable\<close> when the
  dictionary of connections has no key. Otherwise, when every identity in it has a
  session, it returns a session (it does not fail), chosen in two stages: an identity
  uniformly at random among the identities, then a session uniformly at random among
  that identity's sessions. A session of an identity with \<open>n\<close> sessions, among \<open>m\<close>
  identities, is returned with probability \<open>1 / (m * n)\<close>.
\<close>

theorem getRandomClient_two_stage:
  "(connections st = [] \<longrightarrow> getRandomClient st = return_dist (Inl NoConnectionsAvailable))
   \<and> (\<forall>before ident s after c.
        connections st = before @ (ident, s) # after \<and> distinct s \<and> c \<in> set s
        \<and> (\<forall>(k, s') \<in> set (before @ after). s' \<noteq> [] \<and> c \<notin> set s')
        \<longrightarrow> prob (getRandomClient st) (Inr (Client (Connection c)))
              = 1 / (of_nat (length (connections st)) * of_nat (length s)))
   \<and> (connections st \<noteq> [] \<and> (\<forall>(k, s') \<in> set (connections st). s' \<noteq> [])
        \<longrightarrow> (\<forall>x \<in> outcomes (getRandomClient st).
               \<exists>k s c. (k, s) \<in> set (connections st) \<and> c \<in> set s
                       \<and> x = Inr (Client (Connection c))))"
proof (intro conjI allI impI)
  assume "connections st = []"
  then show "getRandomClient st = return_dist (Inl NoConnectionsAvailable)"
    by (simp add: getRandomClient_def)
next
  fix before ident s after c
  assume a: "connections st = before @ (ident, s) # after \<and> distinct s \<and> c \<in> set s
        \<and> (\<forall>(k, s') \<in> set (before @ after). s' \<noteq> [] \<and> c \<notin> set s')"
  then have cs: "connections st = before @ (ident, s) # after" and d: "distinct s"
    and c: "c \<in> set s" and others: "\<forall>(k, s') \<in> set (before @ after). s' \<noteq> [] \<and> c \<notin> set s'"
    by blast+
  have ne: "connections st \<noteq> []" using cs by simp
  have all_ne: "\<forall>s' \<in> set (map snd (connections st)). s' \<noteq> []"
    using cs c others by auto
  let ?m = "rat_of_nat (length (connections st))"
  let ?share = "\<lambda>s'. (1 / ?m) * (of_nat (count_list s' c) / of_nat (length s'))"
  have zero: "\<And>xs. set xs \<subseteq> set (before @ after) \<Longrightarrow> (\<Sum>s'\<leftarrow>map snd xs. ?share s') = 0"
  proof (rule sum_list_zero)
    fix xs x assume sub: "set xs \<subseteq> set (before @ after)" and "x \<in> set (map snd xs)"
    then obtain k where "(k, x) \<in> set xs" by auto
    then have "(k, x) \<in> set (before @ after)" using sub by blast
    then have "case (k, x) of (k, s') \<Rightarrow> s' \<noteq> [] \<and> c \<notin> set s'"
      using others by (rule bspec [rotated])
    then have "c \<notin> set x" by simp
    then show "?share x = 0" by (simp add: count_list_0_iff)
  qed
  have one: "count_list s c = 1"
    using d c by (rule count_list_distinct)
  have "prob (getRandomClient st) (Inr (Client (Connection c)))
          = (\<Sum>s'\<leftarrow>map snd (connections st). ?share s')"
    by (rule prob_getRandomClient [OF ne all_ne])
  also have "\<dots> = (\<Sum>s'\<leftarrow>map snd before. ?share s') + ?share s + (\<Sum>s'\<leftarrow>map snd after. ?share s')"
    by (simp add: cs)
  also have "\<dots> = ?share s"
    using zero [of before] zero [of after] by simp
  also have "\<dots> = 1 / (?m * of_nat (length s))"
    by (simp add: one)
  finally show "prob (getRandomClient st) (Inr (Client (Connection c)))
              = 1 / (of_nat (length (connections st)) * of_nat (length s))" .
next
  assume a: "connections st \<noteq> [] \<and> (\<forall>(k, s') \<in> set (connections st). s' \<noteq> [])"
  show "\<forall>x \<in> outcomes (getRandomClient st).
               \<exists>k s c. (k, s) \<in> set (connections st) \<and> c \<in> set s
                       \<and> x = Inr (Client (Connection c))"
  proof
    fix x assume x: "x \<in> outcomes (getRandomClient st)"
    have "getRandomClient st =
        bind_dist (random_choice (map snd (connections st)))
          (\<lambda>connection.
             if \<not> length connection > 0 then return_dist (Inl AssertionError)
             else bind_dist (random_choice connection)
                    (\<lambda>c. return_dist (Inr (Client (Connection c)))))"
      using a by (simp add: getRandomClient_def)
    with x obtain s where s: "s \<in> set (map snd (connections st))"
      and xs: "x \<in> outcomes (if \<not> length s > 0 then return_dist (Inl AssertionError)
             else bind_dist (random_choice s) (\<lambda>c. return_dist (Inr (Client (Connection c)))))"
      by (auto simp: outcomes_bind)
    from s obtain k where k: "(k, s) \<in> set (connections st)" by auto
    with a have "case (k, s) of (k, s') \<Rightarrow> s' \<noteq> []" by blast
    then have "s \<noteq> []" by simp
    with xs obtain c where "c \<in> set s" "x = Inr (Client (Connection c))"
      by (auto simp: outcomes_bind)
    with k show "\<exists>k s c. (k, s) \<in> set (connections st) \<and> c \<in> set s
                       \<and> x = Inr (Client (Connection c))" by blast
  qed
qed

theorem getRandomClient_two_stage_witness:
  "prob (getRandomClient three_sessions) (Inr (Client (Connection 2))) = 1 / 4
   \<and> getRandomClient (init_registry :: string registry) = [(1, Inl NoConnectionsAvailable)]"
proof -
  have a: "prob (getRandomClient three_sessions) (Inr (Client (Connection 2))) = 1 / 4"
    using getRandomClient_two_stage [of three_sessions, THEN conjunct2, THEN conjunct1,
        rule_format, of "[(''rack-a'', [1])]" "''rack-b''" "[2, 3]" "[]" 2]
    by (simp add: three_sessions_eq)
  have b: "getRandomClient (init_registry :: string registry) = [(1, Inl NoConnectionsAvailable)]"
    using getRandomClient_two_stage [of "init_registry :: string registry", THEN conjunct1]
    by (simp add: init_registry_def return_dist_def)
  show ?thesis using a b by simp
qed

section \<open>Reading and writing the dictionaries\<close>

lemma map_of_map_values:
  "map_of (map (\<lambda>(k', s). if k' = k then (k', f s) else (k', s)) d) k'
     = (if k' = k then map_option f (map_of d k') else map_of d k')"
  by (induction d) auto

lemma map_of_touch:
  "map_of (dd_touch d k) k' = (if k' = k \<and> map_of d k = None then Some [] else map_of d k')"
  by (auto simp: dd_touch_def map_add_def split: option.splits)

lemma dd_lookup_touch [simp]: "dd_lookup (dd_touch d k) k' = dd_lookup d k'"
  by (simp add: dd_lookup_def map_of_touch)

lemma dd_lookup_apply:
  "dd_lookup (dd_apply d k f) k' = (if k' = k then f (dd_lookup d k) else dd_lookup d k')"
  by (auto simp: dd_lookup_def dd_apply_def map_of_map_values map_of_touch split: option.splits)

lemma dd_touch_present: "map_of d k \<noteq> None \<Longrightarrow> dd_touch d k = d"
  by (auto simp: dd_touch_def)

lemma dd_touch_touch [simp]: "dd_touch (dd_touch d k) k = dd_touch d k"
  by (rule dd_touch_present) (simp add: map_of_touch)

lemma dd_touch_apply [simp]: "dd_touch (dd_apply d k f) k = dd_apply d k f"
  by (rule dd_touch_present) (simp add: dd_apply_def map_of_map_values map_of_touch)

lemma dd_apply_idem:
  assumes "\<And>s. f (f s) = f s"
  shows "dd_apply (dd_apply d k f) k f = dd_apply d k f"
proof -
  have "dd_apply (dd_apply d k f) k f
          = map (\<lambda>(k', s). if k' = k then (k', f s) else (k', s)) (dd_apply d k f)"
    by (simp add: dd_apply_def [of "dd_apply d k f"])
  also have "\<dots> = dd_apply d k f"
    by (simp add: dd_apply_def [of d] assms case_prod_beta)
  finally show ?thesis .
qed

section \<open>\<^verbatim>\<open>_removeConnectionFor\<close>\<close>

text \<open>
  C4, as stated, fails on the notifications: every call fires \<^verbatim>\<open>disconnected\<close>, so two
  calls fire it twice and one call once.
\<close>

theorem unregister_twice_counterexample:
  "events (removeConnectionFor ''rack-a'' 1 one_session)
     = [Connected ''rack-a'', Disconnected ''rack-a'']
   \<and> events (removeConnectionFor ''rack-a'' 1 (removeConnectionFor ''rack-a'' 1 one_session))
     = [Connected ''rack-a'', Disconnected ''rack-a'', Disconnected ''rack-a'']"
  by (simp add: one_session_eq removeConnectionFor_def)

text \<open>
  C4, amended: \<^verbatim>\<open>_removeConnectionFor\<close> never fails and is idempotent on the connection
  sets: a second call leaves the dictionary of connections as the first left it, and a
  call for a session that is absent leaves every identity's set of sessions as it was.
  Every call fires one \<^verbatim>\<open>disconnected\<close> notification, also when the session is absent.
  Waiters, Deferreds and delayed calls are not touched.
\<close>

theorem removeConnectionFor_twice:
  "connections (removeConnectionFor ident c (removeConnectionFor ident c st))
     = connections (removeConnectionFor ident c st)
   \<and> events (removeConnectionFor ident c st) = events st @ [Disconnected ident]
   \<and> events (removeConnectionFor ident c (removeConnectionFor ident c st))
       = events st @ [Disconnected ident, Disconnected ident]
   \<and> (\<forall>k. dd_lookup (connections (removeConnectionFor ident c st)) k
            = (if k = ident then removeAll c (dd_lookup (connections st) k)
               else dd_lookup (connections st) k))
   \<and> (c \<notin> set (dd_lookup (connections st) ident)
        \<longrightarrow> (\<forall>k. dd_lookup (connections (removeConnectionFor ident c st)) k
                   = dd_lookup (connections st) k))
   \<and> waiters (removeConnectionFor ident c st) = waiters st
   \<and> deferreds (removeConnectionFor ident c st) = deferreds st
   \<and> delayed_calls (removeConnectionFor ident c st) = delayed_calls st"
  by (simp add: removeConnectionFor_def dd_apply_idem dd_lookup_apply set_discard_def)

theorem removeConnectionFor_twice_witness:
  "dd_lookup (connections (removeConnectionFor ''rack-b'' 1 one_session)) ''rack-a'' = [1]
   \<and> dd_lookup (connections (removeConnectionFor ''rack-a'' 1 one_session)) ''rack-a'' = []
   \<and> 1 \<notin> set (dd_lookup (connections one_session) ''rack-b'')"
  using removeConnectionFor_twice [of "''rack-b''" 1 one_session]
        removeConnectionFor_twice [of "''rack-a''" 1 one_session]
  by (simp add: one_session_eq dd_lookup_def)

section \<open>What firing a Deferred changes\<close>

lemma fold_discard_frame:
  "connections (fold (\<lambda>ident s. s\<lparr>waiters := dd_apply (waiters s) ident (f ident)\<rparr>) ks st) = connections st
   \<and> events (fold (\<lambda>ident s. s\<lparr>waiters := dd_apply (waiters s) ident (f ident)\<rparr>) ks st) = events st
   \<and> seconds (fold (\<lambda>ident s. s\<lparr>waiters := dd_apply (waiters s) ident (f ident)\<rparr>) ks st) = seconds st
   \<and> deferreds (fold (\<lambda>ident s. s\<lparr>waiters := dd_apply (waiters s) ident (f ident)\<rparr>) ks st) = deferreds st
   \<and> delayed_calls (fold (\<lambda>ident s. s\<lparr>waiters := dd_apply (waiters s) ident (f ident)\<rparr>) ks st) = delayed_calls st"
  by (induction ks arbitrary: st) auto

lemma fold_discard_waiters:
  "set (dd_lookup (waiters (fold (\<lambda>ident s. s\<lparr>waiters := dd_apply (waiters s) ident (set_discard w)\<rparr>) ks st)) k)
     = (if k \<in> set ks then set (dd_lookup (waiters st) k) - {w} else set (dd_lookup (waiters st) k))"
  by (induction ks arbitrary: st) (auto simp: dd_lookup_apply set_discard_def)

lemma fold_add_waiters:
  "set (dd_lookup (waiters (fold (\<lambda>ident s. s\<lparr>waiters := dd_apply (waiters s) ident (set_add w)\<rparr>) ks st)) k)
     = (if k \<in> set ks then insert w (set (dd_lookup (waiters st) k)) else set (dd_lookup (waiters st) k))"
  by (induction ks arbitrary: st) (auto simp: dd_lookup_apply set_add_def)

lemma run_callback_frame:
  "connections (snd (run_callback w cb rs)) = connections (snd rs)
   \<and> events (snd (run_callback w cb rs)) = events (snd rs)
   \<and> seconds (snd (run_callback w cb rs)) = seconds (snd rs)
   \<and> deferreds (snd (run_callback w cb rs)) = deferreds (snd rs)"
  by (cases rs; cases cb) (auto simp: fold_discard_frame split: sum.splits val.splits)

lemma run_callback_waiters:
  "set (dd_lookup (waiters (snd (run_callback w cb rs))) k)
     = (if k \<in> discard_idents cb then set (dd_lookup (waiters (snd rs)) k) - {w}
        else set (dd_lookup (waiters (snd rs)) k))"
  by (cases rs; cases cb)
     (auto simp: fold_discard_waiters dd_lookup_apply set_discard_def split: sum.splits val.splits)

lemma run_callback_delayed:
  "delayed_calls (snd (run_callback w cb rs))
     = (if cb = Timeout_done then filter (\<lambda>c. snd c \<noteq> w) (delayed_calls (snd rs))
        else delayed_calls (snd rs))"
  by (cases rs; cases cb) (auto simp: fold_discard_frame split: sum.splits val.splits)

lemma fold_run_callback_frame:
  "connections (snd (fold (run_callback w) cbs rs)) = connections (snd rs)
   \<and> events (snd (fold (run_callback w) cbs rs)) = events (snd rs)
   \<and> seconds (snd (fold (run_callback w) cbs rs)) = seconds (snd rs)
   \<and> deferreds (snd (fold (run_callback w) cbs rs)) = deferreds (snd rs)"
  by (induction cbs arbitrary: rs) (simp_all add: run_callback_frame)

lemma fold_run_callback_waiters:
  "set (dd_lookup (waiters (snd (fold (run_callback w) cbs rs))) k)
     = (if k \<in> (\<Union>cb \<in> set cbs. discard_idents cb) then set (dd_lookup (waiters (snd rs)) k) - {w}
        else set (dd_lookup (waiters (snd rs)) k))"
  by (induction cbs arbitrary: rs) (auto simp: run_callback_waiters)

lemma fold_run_callback_delayed:
  "delayed_calls (snd (fold (run_callback w) cbs rs))
     = (if Timeout_done \<in> set cbs then filter (\<lambda>c. snd c \<noteq> w) (delayed_calls (snd rs))
        else delayed_calls (snd rs))"
  by (induction cbs arbitrary: rs) (auto simp: run_callback_delayed)

lemma fire_alt:
  "fire w r st =
     (snd (fold (run_callback w) (d_callbacks (deferreds st ! w)) (r, st)))
       \<lparr>deferreds := (deferreds st)[w :=
          \<lparr>d_result = Some (fst (fold (run_callback w) (d_callbacks (deferreds st ! w)) (r, st))),
           d_callbacks = []\<rparr>]\<rparr>"
  using fold_run_callback_frame [of w "d_callbacks (deferreds st ! w)" "(r, st)"]
  by (simp add: fire_def case_prod_beta)

lemma fire_frame [simp]:
  "connections (fire w r st) = connections st"
  "events (fire w r st) = events st"
  "seconds (fire w r st) = seconds st"
  "length (deferreds (fire w r st)) = length (deferreds st)"
  using fold_run_callback_frame [of w "d_callbacks (deferreds st ! w)" "(r, st)"]
  by (simp_all add: fire_alt)

lemma fire_other [simp]: "w' \<noteq> w \<Longrightarrow> deferreds (fire w r st) ! w' = deferreds st ! w'"
  by (simp add: fire_alt)

lemma fire_self:
  "w < length (deferreds st) \<Longrightarrow>
   deferreds (fire w r st) ! w =
     \<lparr>d_result = Some (fst (fold (run_callback w) (d_callbacks (deferreds st ! w)) (r, st))),
      d_callbacks = []\<rparr>"
  by (simp add: fire_alt)

lemma fire_waiters:
  "set (dd_lookup (waiters (fire w r st)) k)
     = (if k \<in> registered_under st w then set (dd_lookup (waiters st) k) - {w}
        else set (dd_lookup (waiters st) k))"
  using fold_run_callback_waiters [of w "d_callbacks (deferreds st ! w)" "(r, st)" k]
  by (simp add: fire_alt registered_under_def)

lemma fire_delayed:
  "delayed_calls (fire w r st)
     = (if Timeout_done \<in> set (d_callbacks (deferreds st ! w))
        then filter (\<lambda>c. snd c \<noteq> w) (delayed_calls st) else delayed_calls st)"
  using fold_run_callback_delayed [of w "d_callbacks (deferreds st ! w)" "(r, st)"]
  by (simp add: fire_alt)

section \<open>The waiter sets and the pending waiters agree\<close>

lemma pending_fire: "pending st w \<Longrightarrow> pending (fire w r st) w' \<longleftrightarrow> w' \<noteq> w \<and> pending st w'"
  by (cases "w' = w") (simp_all add: pending_def fire_self)

lemma registered_under_fire:
  "w' \<noteq> w \<Longrightarrow> registered_under (fire w r st) w' = registered_under st w'"
  by (simp add: registered_under_def)

lemma waiters_consistent_cong:
  assumes "deferreds st' = deferreds st"
    and "\<And>k. set (dd_lookup (waiters st') k) = set (dd_lookup (waiters st) k)"
  shows "waiters_consistent st' = waiters_consistent st"
  using assms by (simp add: waiters_consistent_def pending_def registered_under_def)

lemma waiters_consistent_fire:
  assumes "waiters_consistent st" and "pending st w"
  shows "waiters_consistent (fire w r st)"
  unfolding waiters_consistent_def
proof (intro allI)
  fix k w'
  show "w' \<in> set (dd_lookup (waiters (fire w r st)) k)
          \<longleftrightarrow> pending (fire w r st) w' \<and> k \<in> registered_under (fire w r st) w'"
  proof (cases "w' = w")
    case True
    have "w \<notin> set (dd_lookup (waiters (fire w r st)) k)"
      using assms(1) by (auto simp: fire_waiters waiters_consistent_def)
    then show ?thesis using True assms(2) by (simp add: pending_fire)
  next
    case False
    then have "w' \<in> set (dd_lookup (waiters (fire w r st)) k)
                 \<longleftrightarrow> w' \<in> set (dd_lookup (waiters st) k)"
      by (simp add: fire_waiters)
    then show ?thesis
      using False assms by (simp add: pending_fire registered_under_fire waiters_consistent_def)
  qed
qed

lemma waiters_consistent_cancel:
  "waiters_consistent st \<Longrightarrow> waiters_consistent (cancel w st)"
  by (simp add: cancel_def waiters_consistent_fire)

lemma waiters_consistent_notify:
  "waiters_consistent st \<Longrightarrow> waiters_consistent (snd (notify_waiters ws c st))"
  by (induction ws arbitrary: st) (auto simp: callback_def waiters_consistent_fire)

lemma notify_waiters_frame:
  "connections (snd (notify_waiters ws c st)) = connections st
   \<and> events (snd (notify_waiters ws c st)) = events st
   \<and> seconds (snd (notify_waiters ws c st)) = seconds st
   \<and> length (deferreds (snd (notify_waiters ws c st))) = length (deferreds st)"
  by (induction ws arbitrary: st) (auto simp: callback_def)

lemma addConnectionFor_alt:
  "snd (addConnectionFor ident c st) =
     (let st' = snd (notify_waiters (dd_lookup (waiters st) ident) c
                  (st\<lparr>connections := dd_apply (connections st) ident (set_add c),
                      waiters := dd_touch (waiters st) ident\<rparr>))
      in if fst (notify_waiters (dd_lookup (waiters st) ident) c
                  (st\<lparr>connections := dd_apply (connections st) ident (set_add c),
                      waiters := dd_touch (waiters st) ident\<rparr>)) = None
         then st'\<lparr>events := events st' @ [Connected ident]\<rparr> else st')"
  by (auto simp: addConnectionFor_def Let_def split: prod.splits option.splits)

lemma waiters_consistent_addConnectionFor:
  assumes "waiters_consistent st"
  shows "waiters_consistent (snd (addConnectionFor ident c st))"
proof -
  let ?st2 = "st\<lparr>connections := dd_apply (connections st) ident (set_add c),
                 waiters := dd_touch (waiters st) ident\<rparr>"
  have "waiters_consistent ?st2"
    using assms by (simp add: waiters_consistent_cong [of ?st2 st])
  then have n: "waiters_consistent (snd (notify_waiters (dd_lookup (waiters st) ident) c ?st2))"
    by (rule waiters_consistent_notify)
  show ?thesis
    unfolding addConnectionFor_alt Let_def
    using n by (simp add: waiters_consistent_cong
        [of "(snd (notify_waiters (dd_lookup (waiters st) ident) c ?st2))\<lparr>events := e\<rparr>"
            "snd (notify_waiters (dd_lookup (waiters st) ident) c ?st2)" for e])
qed

lemma waiters_consistent_removeConnectionFor:
  "waiters_consistent st \<Longrightarrow> waiters_consistent (removeConnectionFor ident c st)"
  by (simp add: removeConnectionFor_def
      waiters_consistent_cong [of "removeConnectionFor ident c st" st, unfolded removeConnectionFor_def])

section \<open>Every reachable state is consistent\<close>

lemma dd_apply_touch [simp]: "dd_apply (dd_touch d k) k f = dd_apply d k f"
  by (simp add: dd_apply_def)

lemma set_set_add [simp]: "set (set_add x s) = insert x (set s)"
  by (auto simp: set_add_def)

lemma set_set_discard [simp]: "set (set_discard x s) = set s - {x}"
  by (auto simp: set_discard_def)

lemma getClientFor_wait:
  assumes "dd_lookup (connections st) ident = []"
  shows "getClientFor ident timeout st =
     return_dist (length (deferreds st),
       st\<lparr>connections := dd_touch (connections st) ident,
          waiters := dd_apply (waiters st) ident (set_add (length (deferreds st))),
          deferreds := deferreds st @
            [\<lparr>d_result = None,
              d_callbacks = [Timeout_done, Discard ident, Client_or_unavailable]\<rparr>],
          delayed_calls := delayed_calls st @ [(seconds st + timeout, length (deferreds st))]\<rparr>)"
  using assms
  by (simp add: getClientFor_def getConnectionFor_def Let_def deferWithTimeout_def
      new_deferred_def add_callback_def return_dist_def bind_dist_def)

lemma getClientFor_now:
  assumes "dd_lookup (connections st) ident \<noteq> []"
  shows "getClientFor ident timeout st =
     map (\<lambda>c. (1 / of_nat (length (dd_lookup (connections st) ident)),
               (length (deferreds st),
                st\<lparr>connections := dd_touch (connections st) ident,
                   deferreds := deferreds st @
                     [\<lparr>d_result = Some (Inr (Client (Connection c))), d_callbacks = []\<rparr>]\<rparr>)))
       (dd_lookup (connections st) ident)"
  using assms
  by (simp add: getClientFor_def getConnectionFor_def Let_def succeed_def
      new_deferred_def add_callback_def return_dist_def bind_dist_def random_choice_def
      o_def concat_map_singleton)


lemma waiters_consistent_members:
  "waiters_consistent st \<Longrightarrow> w \<in> set (dd_lookup (waiters st) k) \<Longrightarrow> w < length (deferreds st)"
  by (simp add: waiters_consistent_def pending_def)

lemma consistent_new_waiter:
  assumes c: "waiters_consistent st"
    and d: "deferreds st' = deferreds st @ [\<lparr>d_result = None, d_callbacks = cbs\<rparr>]"
    and w: "\<And>k. set (dd_lookup (waiters st') k) =
              (if k \<in> (\<Union>cb \<in> set cbs. discard_idents cb)
               then insert (length (deferreds st)) (set (dd_lookup (waiters st) k))
               else set (dd_lookup (waiters st) k))"
  shows "waiters_consistent st'"
  unfolding waiters_consistent_def
proof (intro allI)
  fix k w'
  consider "w' < length (deferreds st)" | "w' = length (deferreds st)" | "w' > length (deferreds st)"
    by linarith
  then show "w' \<in> set (dd_lookup (waiters st') k) \<longleftrightarrow> pending st' w' \<and> k \<in> registered_under st' w'"
  proof cases
    case 1
    then have "pending st' w' = pending st w'" "registered_under st' w' = registered_under st w'"
      by (simp_all add: pending_def registered_under_def d nth_append)
    moreover have "w' \<in> set (dd_lookup (waiters st') k) \<longleftrightarrow> w' \<in> set (dd_lookup (waiters st) k)"
      using 1 by (simp add: w)
    ultimately show ?thesis using c by (simp add: waiters_consistent_def)
  next
    case 2
    have "length (deferreds st) \<notin> set (dd_lookup (waiters st) k)"
      using waiters_consistent_members [OF c] by blast
    then show ?thesis
      using 2 by (simp add: w pending_def registered_under_def d)
  next
    case 3
    have "w' \<notin> set (dd_lookup (waiters st) k)"
      using waiters_consistent_members [OF c, of w' k] 3 by auto
    then show ?thesis
      using 3 by (simp add: w pending_def d)
  qed
qed

lemma consistent_new_fired:
  assumes c: "waiters_consistent st"
    and d: "deferreds st' = deferreds st @ [\<lparr>d_result = Some r, d_callbacks = cbs\<rparr>]"
    and w: "\<And>k. set (dd_lookup (waiters st') k) = set (dd_lookup (waiters st) k)"
  shows "waiters_consistent st'"
  unfolding waiters_consistent_def
proof (intro allI)
  fix k w'
  show "w' \<in> set (dd_lookup (waiters st') k) \<longleftrightarrow> pending st' w' \<and> k \<in> registered_under st' w'"
  proof (cases "w' < length (deferreds st)")
    case True
    then have "pending st' w' = pending st w'" "registered_under st' w' = registered_under st w'"
      by (simp_all add: pending_def registered_under_def d nth_append)
    then show ?thesis using c by (simp add: waiters_consistent_def w)
  next
    case False
    have "w' \<notin> set (dd_lookup (waiters st) k)"
      using waiters_consistent_members [OF c, of w' k] False by auto
    moreover have "\<not> pending st' w'"
      using False by (cases "w' = length (deferreds st)") (simp_all add: pending_def d)
    ultimately show ?thesis by (simp add: w)
  qed
qed

lemma waiters_consistent_getClientFor:
  assumes "waiters_consistent st" and "x \<in> outcomes (getClientFor ident timeout st)"
  shows "waiters_consistent (snd x)"
proof (cases "dd_lookup (connections st) ident = []")
  case True
  show ?thesis
    using assms(2) unfolding getClientFor_wait [OF True]
    by (auto intro!: consistent_new_waiter [OF assms(1)] simp: dd_lookup_apply)
next
  case False
  show ?thesis
    using assms(2) unfolding getClientFor_now [OF False]
    by (auto intro!: consistent_new_fired [OF assms(1)] simp: outcomes_def)
qed

lemma getClientFor_nonempty: "getClientFor ident timeout st \<noteq> []"
  by (cases "dd_lookup (connections st) ident = []")
     (simp_all add: getClientFor_wait getClientFor_now return_dist_def)

lemma pick_outcomes: "d \<noteq> [] \<Longrightarrow> pick r d \<in> outcomes d"
  by (simp add: pick_def outcomes_def)


lemma outcomes_empty_iff [simp]: "outcomes d = {} \<longleftrightarrow> d = []"
  by (simp add: outcomes_def)

lemma bind_dist_nonempty:
  assumes "d \<noteq> []" and "\<And>x. x \<in> outcomes d \<Longrightarrow> f x \<noteq> []"
  shows "bind_dist d f \<noteq> []"
proof -
  have "outcomes (bind_dist d f) \<noteq> {}"
    using assms by (simp add: outcomes_bind)
  then show ?thesis by simp
qed

lemma random_choice_nonempty [simp]: "random_choice xs = [] \<longleftrightarrow> xs = []"
  by (simp add: random_choice_def)

lemma match_connections_nonempty: "match_connections ks acc st \<noteq> []"
proof (induction ks arbitrary: acc st)
  case Nil
  then show ?case by (simp add: return_dist_def)
next
  case (Cons k ks)
  show ?case
  proof (cases "dd_lookup (connections st) k = []")
    case True
    then show ?thesis by (simp add: Cons.IH)
  next
    case False
    have "bind_dist (random_choice (dd_lookup (connections st) k))
            (\<lambda>c. match_connections ks (acc @ [c]) (st\<lparr>connections := dd_touch (connections st) k\<rparr>))
          \<noteq> []"
      by (rule bind_dist_nonempty) (simp_all add: False Cons.IH)
    then show ?thesis using False by simp
  qed
qed

lemma match_connections_outcomes:
  "x \<in> outcomes (match_connections ks acc st) \<Longrightarrow>
     waiters (snd x) = waiters st \<and> deferreds (snd x) = deferreds st
     \<and> delayed_calls (snd x) = delayed_calls st \<and> seconds (snd x) = seconds st
     \<and> events (snd x) = events st
     \<and> (\<forall>k. dd_lookup (connections (snd x)) k = dd_lookup (connections st) k)"
proof (induction ks arbitrary: acc st)
  case Nil
  then show ?case by simp
next
  case (Cons k ks)
  let ?st1 = "st\<lparr>connections := dd_touch (connections st) k\<rparr>"
  from Cons.prems obtain acc' where "x \<in> outcomes (match_connections ks acc' ?st1)"
    by (auto simp: Let_def outcomes_bind split: if_splits)
  from Cons.IH [OF this] show ?case by simp
qed

lemma getConnectionFromIdentifiers_nonempty:
  "getConnectionFromIdentifiers ks timeout st \<noteq> []"
  unfolding getConnectionFromIdentifiers_def
  by (rule bind_dist_nonempty [OF match_connections_nonempty])
     (auto simp: return_dist_def Let_def split: prod.splits)

text \<open>The state after the waiter branch of \<^verbatim>\<open>_getConnectionFromIdentifiers\<close>.\<close>

lemma getany_wait_state:
  assumes "deferWithTimeout timeout st1 = (d, st2)"
    and "st5 = fold (\<lambda>ident s. s\<lparr>waiters := dd_apply (waiters s) ident (set_add d)\<rparr>) ks
                 (add_callback d Cb_conn_list (add_callback d (Discard_all ks) st2))"
  shows "d = length (deferreds st1)"
    and "deferreds st5 = deferreds st1 @
           [\<lparr>d_result = None, d_callbacks = [Timeout_done, Discard_all ks, Cb_conn_list]\<rparr>]"
    and "set (dd_lookup (waiters st5) k) =
           (if k \<in> set ks then insert (length (deferreds st1)) (set (dd_lookup (waiters st1) k))
            else set (dd_lookup (waiters st1) k))"
    and "delayed_calls st5 = delayed_calls st1 @ [(seconds st1 + timeout, length (deferreds st1))]"
    and "connections st5 = connections st1"
    and "events st5 = events st1"
    and "seconds st5 = seconds st1"
proof -
  have d: "d = length (deferreds st1)"
    and st2: "st2 = st1\<lparr>deferreds := deferreds st1 @ [\<lparr>d_result = None, d_callbacks = [Timeout_done]\<rparr>],
                       delayed_calls := delayed_calls st1 @ [(seconds st1 + timeout, length (deferreds st1))]\<rparr>"
    using assms(1) by (auto simp: deferWithTimeout_def new_deferred_def Let_def)
  let ?st4 = "add_callback d Cb_conn_list (add_callback d (Discard_all ks) st2)"
  have st4: "?st4 = st1\<lparr>deferreds := deferreds st1 @
                 [\<lparr>d_result = None, d_callbacks = [Timeout_done, Discard_all ks, Cb_conn_list]\<rparr>],
               delayed_calls := delayed_calls st1 @ [(seconds st1 + timeout, length (deferreds st1))]\<rparr>"
    by (simp add: st2 d add_callback_def)
  show "d = length (deferreds st1)" by (rule d)
  show "deferreds st5 = deferreds st1 @
           [\<lparr>d_result = None, d_callbacks = [Timeout_done, Discard_all ks, Cb_conn_list]\<rparr>]"
    unfolding assms(2) by (simp add: fold_discard_frame st4)
  show "set (dd_lookup (waiters st5) k) =
           (if k \<in> set ks then insert (length (deferreds st1)) (set (dd_lookup (waiters st1) k))
            else set (dd_lookup (waiters st1) k))"
    unfolding assms(2) fold_add_waiters st4 by (simp add: d)
  show "delayed_calls st5 = delayed_calls st1 @ [(seconds st1 + timeout, length (deferreds st1))]"
    unfolding assms(2) by (simp add: fold_discard_frame st4)
  show "connections st5 = connections st1"
    unfolding assms(2) by (simp add: fold_discard_frame st4)
  show "events st5 = events st1"
    unfolding assms(2) by (simp add: fold_discard_frame st4)
  show "seconds st5 = seconds st1"
    unfolding assms(2) by (simp add: fold_discard_frame st4)
qed

lemma waiters_consistent_getConnectionFromIdentifiers:
  assumes c: "waiters_consistent st"
    and x: "x \<in> outcomes (getConnectionFromIdentifiers ks timeout st)"
  shows "waiters_consistent (snd x)"
proof -
  from x obtain m st1 where m: "(m, st1) \<in> outcomes (match_connections ks [] st)"
    and x': "x \<in> outcomes
          (if length m > 0 then return_dist (succeed (ConnList m) st1)
           else (let (d, st2) = deferWithTimeout timeout st1;
                     st3 = add_callback d (Discard_all ks) st2;
                     st4 = add_callback d Cb_conn_list st3;
                     st5 = fold (\<lambda>ident s. s\<lparr>waiters := dd_apply (waiters s) ident (set_add d)\<rparr>) ks st4
                 in return_dist (d, st5)))"
    by (auto simp: getConnectionFromIdentifiers_def outcomes_bind)
  have c1: "waiters_consistent st1"
    using match_connections_outcomes [OF m] c
    by (simp add: waiters_consistent_cong [of st1 st])
  show ?thesis
  proof (cases "length m > 0")
    case True
    then have "x = succeed (ConnList m) st1" using x' by simp
    then show ?thesis
      by (auto simp: succeed_def new_deferred_def intro!: consistent_new_fired [OF c1])
  next
    case False
    obtain d st2 where dw: "deferWithTimeout timeout st1 = (d, st2)"
      by (cases "deferWithTimeout timeout st1")
    define st5 where "st5 = fold (\<lambda>ident s. s\<lparr>waiters := dd_apply (waiters s) ident (set_add d)\<rparr>) ks
                 (add_callback d Cb_conn_list (add_callback d (Discard_all ks) st2))"
    have "x = (d, st5)" using x' False dw by (simp add: Let_def st5_def)
    moreover have "waiters_consistent st5"
      using getany_wait_state(2,3) [OF dw st5_def]
      by (intro consistent_new_waiter [OF c1]) auto
    ultimately show ?thesis by simp
  qed
qed

lemma waiters_consistent_run_delayed_call:
  "waiters_consistent st \<Longrightarrow> waiters_consistent (run_delayed_call c st)"
  by (simp add: run_delayed_call_def waiters_consistent_cancel
      waiters_consistent_cong [of "st\<lparr>delayed_calls := x\<rparr>" st for x])

lemma waiters_consistent_fold_delayed:
  "waiters_consistent st \<Longrightarrow> waiters_consistent (fold run_delayed_call cs st)"
  by (induction cs arbitrary: st) (simp_all add: waiters_consistent_run_delayed_call)

lemma waiters_consistent_advance:
  "waiters_consistent st \<Longrightarrow> waiters_consistent (advance dt st)"
  by (simp add: advance_def Let_def waiters_consistent_fold_delayed
      waiters_consistent_cong [of "st\<lparr>seconds := x\<rparr>" st for x])

lemma waiters_consistent_step:
  assumes "waiters_consistent st"
  shows "waiters_consistent (step ev st)"
proof (cases ev)
  case (Register k c)
  then show ?thesis using assms by (simp add: waiters_consistent_addConnectionFor)
next
  case (Unregister k c)
  then show ?thesis using assms by (simp add: waiters_consistent_removeConnectionFor)
next
  case (Get k t r)
  have "pick r (getClientFor k t st) \<in> outcomes (getClientFor k t st)"
    by (rule pick_outcomes [OF getClientFor_nonempty])
  from waiters_consistent_getClientFor [OF assms this] show ?thesis using Get by simp
next
  case (GetAny ks t r)
  have "pick r (getConnectionFromIdentifiers ks t st)
          \<in> outcomes (getConnectionFromIdentifiers ks t st)"
    by (rule pick_outcomes [OF getConnectionFromIdentifiers_nonempty])
  from waiters_consistent_getConnectionFromIdentifiers [OF assms this] show ?thesis
    using GetAny by simp
next
  case (Cancel w)
  then show ?thesis using assms by (simp add: waiters_consistent_cancel)
next
  case (Advance dt)
  then show ?thesis using assms by (simp add: waiters_consistent_advance)
qed

lemma waiters_consistent_init: "waiters_consistent init_registry"
  by (simp add: waiters_consistent_def init_registry_def dd_lookup_def pending_def)

lemma waiters_consistent_run:
  "waiters_consistent st \<Longrightarrow> waiters_consistent (run evs st)"
  unfolding run_def by (induction evs arbitrary: st) (simp_all add: waiters_consistent_step)

section \<open>The waiter sets as lists\<close>

lemma removeAll_idem [simp]: "removeAll x (removeAll x xs) = removeAll x xs"
  by (induction xs) auto

lemma set_add_idem [simp]: "set_add x (set_add x s) = set_add x s"
  by (simp add: set_add_def)

lemma fold_discard_waiters_list:
  "dd_lookup (waiters (fold (\<lambda>ident s. s\<lparr>waiters := dd_apply (waiters s) ident (set_discard w)\<rparr>) ks st)) k
     = (if k \<in> set ks then removeAll w (dd_lookup (waiters st) k) else dd_lookup (waiters st) k)"
  by (induction ks arbitrary: st) (auto simp: dd_lookup_apply set_discard_def)

lemma fold_add_waiters_list:
  "dd_lookup (waiters (fold (\<lambda>ident s. s\<lparr>waiters := dd_apply (waiters s) ident (set_add w)\<rparr>) ks st)) k
     = (if k \<in> set ks then set_add w (dd_lookup (waiters st) k) else dd_lookup (waiters st) k)"
  by (induction ks arbitrary: st) (auto simp: dd_lookup_apply)

lemma run_callback_waiters_list:
  "dd_lookup (waiters (snd (run_callback w cb rs))) k
     = (if k \<in> discard_idents cb then removeAll w (dd_lookup (waiters (snd rs)) k)
        else dd_lookup (waiters (snd rs)) k)"
  by (cases rs; cases cb)
     (auto simp: fold_discard_waiters_list dd_lookup_apply set_discard_def
           split: sum.splits val.splits)

lemma fold_run_callback_waiters_list:
  "dd_lookup (waiters (snd (fold (run_callback w) cbs rs))) k
     = (if k \<in> (\<Union>cb \<in> set cbs. discard_idents cb)
        then removeAll w (dd_lookup (waiters (snd rs)) k)
        else dd_lookup (waiters (snd rs)) k)"
  by (induction cbs arbitrary: rs) (auto simp: run_callback_waiters_list)

lemma fire_waiters_list:
  "dd_lookup (waiters (fire w r st)) k
     = (if k \<in> registered_under st w then removeAll w (dd_lookup (waiters st) k)
        else dd_lookup (waiters st) k)"
  using fold_run_callback_waiters_list [of w "d_callbacks (deferreds st ! w)" "(r, st)" k]
  by (simp add: fire_alt registered_under_def)

section \<open>Every reachable waiter set is duplicate-free\<close>

lemma distinct_set_add [simp]: "distinct (set_add x s) = distinct s"
  by (simp add: set_add_def)

lemma waiters_distinct_fire: "waiters_distinct st \<Longrightarrow> waiters_distinct (fire w r st)"
  by (simp add: waiters_distinct_def fire_waiters_list distinct_removeAll)

lemma waiters_distinct_cancel: "waiters_distinct st \<Longrightarrow> waiters_distinct (cancel w st)"
  by (simp add: cancel_def waiters_distinct_fire)

lemma waiters_distinct_notify:
  "waiters_distinct st \<Longrightarrow> waiters_distinct (snd (notify_waiters ws c st))"
  by (induction ws arbitrary: st) (auto simp: callback_def waiters_distinct_fire)

lemma waiters_distinct_addConnectionFor:
  assumes "waiters_distinct st"
  shows "waiters_distinct (snd (addConnectionFor ident c st))"
proof -
  let ?st2 = "st\<lparr>connections := dd_apply (connections st) ident (set_add c),
                 waiters := dd_touch (waiters st) ident\<rparr>"
  have "waiters_distinct ?st2" using assms by (simp add: waiters_distinct_def)
  then have "waiters_distinct (snd (notify_waiters (dd_lookup (waiters st) ident) c ?st2))"
    by (rule waiters_distinct_notify)
  then show ?thesis
    unfolding addConnectionFor_alt Let_def by (simp add: waiters_distinct_def)
qed

lemma waiters_distinct_getClientFor:
  assumes "waiters_distinct st" and "x \<in> outcomes (getClientFor ident timeout st)"
  shows "waiters_distinct (snd x)"
proof (cases "dd_lookup (connections st) ident = []")
  case True
  show ?thesis
    using assms unfolding getClientFor_wait [OF True]
    by (auto simp: waiters_distinct_def dd_lookup_apply)
next
  case False
  show ?thesis
    using assms unfolding getClientFor_now [OF False]
    by (auto simp: waiters_distinct_def outcomes_def)
qed

lemma getany_outcome:
  assumes x: "x \<in> outcomes (getConnectionFromIdentifiers ks timeout st)"
  obtains m st1 where "(m, st1) \<in> outcomes (match_connections ks [] st)"
      and "m \<noteq> []" and "x = succeed (ConnList m) st1"
  | m st1 d st2 where "(m, st1) \<in> outcomes (match_connections ks [] st)"
      and "m = []" and "deferWithTimeout timeout st1 = (d, st2)"
      and "x = (d, fold (\<lambda>ident s. s\<lparr>waiters := dd_apply (waiters s) ident (set_add d)\<rparr>) ks
                 (add_callback d Cb_conn_list (add_callback d (Discard_all ks) st2)))"
proof -
  from x obtain m st1 where m: "(m, st1) \<in> outcomes (match_connections ks [] st)"
    and x': "x \<in> outcomes
          (if length m > 0 then return_dist (succeed (ConnList m) st1)
           else (let (d, st2) = deferWithTimeout timeout st1;
                     st3 = add_callback d (Discard_all ks) st2;
                     st4 = add_callback d Cb_conn_list st3;
                     st5 = fold (\<lambda>ident s. s\<lparr>waiters := dd_apply (waiters s) ident (set_add d)\<rparr>) ks st4
                 in return_dist (d, st5)))"
    by (auto simp: getConnectionFromIdentifiers_def outcomes_bind)
  show thesis
  proof (cases "m = []")
    case False
    then have "x = succeed (ConnList m) st1" using x' by simp
    with m False show thesis by (rule that(1))
  next
    case True
    obtain d st2 where dw: "deferWithTimeout timeout st1 = (d, st2)"
      by (cases "deferWithTimeout timeout st1")
    have "x = (d, fold (\<lambda>ident s. s\<lparr>waiters := dd_apply (waiters s) ident (set_add d)\<rparr>) ks
                 (add_callback d Cb_conn_list (add_callback d (Discard_all ks) st2)))"
      using x' True dw by (simp add: Let_def)
    with m True dw show thesis by (rule that(2))
  qed
qed

lemma getany_wait_waiters_list:
  assumes "deferWithTimeout timeout st1 = (d, st2)"
  shows "dd_lookup (waiters (fold (\<lambda>ident s. s\<lparr>waiters := dd_apply (waiters s) ident (set_add d)\<rparr>) ks
                 (add_callback d Cb_conn_list (add_callback d (Discard_all ks) st2)))) k
         = (if k \<in> set ks then set_add d (dd_lookup (waiters st1) k) else dd_lookup (waiters st1) k)"
proof -
  have "waiters (add_callback d Cb_conn_list (add_callback d (Discard_all ks) st2)) = waiters st1"
    using assms by (auto simp: deferWithTimeout_def new_deferred_def Let_def add_callback_def)
  then show ?thesis by (simp add: fold_add_waiters_list)
qed

lemma waiters_distinct_getConnectionFromIdentifiers:
  assumes c: "waiters_distinct st"
    and x: "x \<in> outcomes (getConnectionFromIdentifiers ks timeout st)"
  shows "waiters_distinct (snd x)"
  using x
proof (cases rule: getany_outcome)
  case (1 m st1)
  then show ?thesis
    using match_connections_outcomes [OF 1(1)] c
    by (simp add: waiters_distinct_def succeed_def new_deferred_def)
next
  case (2 m st1 d st2)
  then show ?thesis
    using match_connections_outcomes [OF 2(1)] c
    by (simp add: waiters_distinct_def getany_wait_waiters_list [OF 2(3)])
qed

lemma waiters_distinct_fold_delayed:
  "waiters_distinct st \<Longrightarrow> waiters_distinct (fold run_delayed_call cs st)"
proof (induction cs arbitrary: st)
  case Nil
  then show ?case by simp
next
  case (Cons c cs)
  have "waiters_distinct (st\<lparr>delayed_calls := remove1 c (delayed_calls st)\<rparr>)"
    using Cons.prems by (simp add: waiters_distinct_def)
  then have "waiters_distinct (run_delayed_call c st)"
    using Cons.prems by (simp add: run_delayed_call_def waiters_distinct_cancel)
  then show ?case by (simp add: Cons.IH)
qed

lemma waiters_distinct_advance: "waiters_distinct st \<Longrightarrow> waiters_distinct (advance dt st)"
proof -
  assume "waiters_distinct st"
  then have "waiters_distinct (st\<lparr>seconds := seconds st + dt\<rparr>)"
    by (simp add: waiters_distinct_def)
  then show ?thesis
    by (simp add: advance_def Let_def waiters_distinct_fold_delayed)
qed

lemma waiters_distinct_step:
  assumes "waiters_distinct st"
  shows "waiters_distinct (step ev st)"
proof (cases ev)
  case (Register k c)
  then show ?thesis using assms by (simp add: waiters_distinct_addConnectionFor)
next
  case (Unregister k c)
  then show ?thesis using assms by (simp add: waiters_distinct_def removeConnectionFor_def)
next
  case (Get k t r)
  have "pick r (getClientFor k t st) \<in> outcomes (getClientFor k t st)"
    by (rule pick_outcomes [OF getClientFor_nonempty])
  from waiters_distinct_getClientFor [OF assms this] show ?thesis using Get by simp
next
  case (GetAny ks t r)
  have "pick r (getConnectionFromIdentifiers ks t st)
          \<in> outcomes (getConnectionFromIdentifiers ks t st)"
    by (rule pick_outcomes [OF getConnectionFromIdentifiers_nonempty])
  from waiters_distinct_getConnectionFromIdentifiers [OF assms this] show ?thesis
    using GetAny by simp
next
  case (Cancel w)
  then show ?thesis using assms by (simp add: waiters_distinct_cancel)
next
  case (Advance dt)
  then show ?thesis using assms by (simp add: waiters_distinct_advance)
qed

lemma waiters_distinct_run:
  "waiters_distinct st \<Longrightarrow> waiters_distinct (run evs st)"
  unfolding run_def by (induction evs arbitrary: st) (simp_all add: waiters_distinct_step)

lemma waiters_distinct_init: "waiters_distinct init_registry"
  by (simp add: waiters_distinct_def init_registry_def dd_lookup_def)

section \<open>Every reachable set of sessions is duplicate-free\<close>

lemma cancel_frame [simp]:
  "connections (cancel w st) = connections st"
  "events (cancel w st) = events st"
  "seconds (cancel w st) = seconds st"
  "length (deferreds (cancel w st)) = length (deferreds st)"
  by (simp_all add: cancel_def)

lemma run_delayed_call_frame [simp]:
  "connections (run_delayed_call c st) = connections st"
  "events (run_delayed_call c st) = events st"
  "seconds (run_delayed_call c st) = seconds st"
  "length (deferreds (run_delayed_call c st)) = length (deferreds st)"
  by (simp_all add: run_delayed_call_def)

lemma fold_delayed_frame [simp]:
  "connections (fold run_delayed_call cs st) = connections st"
  "events (fold run_delayed_call cs st) = events st"
  "seconds (fold run_delayed_call cs st) = seconds st"
  "length (deferreds (fold run_delayed_call cs st)) = length (deferreds st)"
  by (induction cs arbitrary: st) simp_all

lemma advance_frame [simp]:
  "connections (advance dt st) = connections st"
  "events (advance dt st) = events st"
  "seconds (advance dt st) = seconds st + dt"
  "length (deferreds (advance dt st)) = length (deferreds st)"
  by (simp_all add: advance_def Let_def)

lemma addConnectionFor_connections:
  "connections (snd (addConnectionFor ident c st)) = dd_apply (connections st) ident (set_add c)"
  unfolding addConnectionFor_alt Let_def by (simp add: notify_waiters_frame)

lemma connections_distinct_step:
  assumes "connections_distinct st"
  shows "connections_distinct (step ev st)"
proof (cases ev)
  case (Register k c)
  then show ?thesis
    using assms by (simp add: connections_distinct_def addConnectionFor_connections dd_lookup_apply)
next
  case (Unregister k c)
  then show ?thesis
    using assms
    by (simp add: connections_distinct_def removeConnectionFor_def dd_lookup_apply
        set_discard_def distinct_removeAll)
next
  case (Get k t r)
  have p: "pick r (getClientFor k t st) \<in> outcomes (getClientFor k t st)"
    by (rule pick_outcomes [OF getClientFor_nonempty])
  have "\<forall>x \<in> outcomes (getClientFor k t st). connections (snd x) = dd_touch (connections st) k"
    by (cases "dd_lookup (connections st) k = []")
       (auto simp: getClientFor_wait getClientFor_now outcomes_def return_dist_def)
  with p have "connections (step ev st) = dd_touch (connections st) k"
    using Get by simp
  then show ?thesis using assms by (simp add: connections_distinct_def)
next
  case (GetAny ks t r)
  have "pick r (getConnectionFromIdentifiers ks t st)
          \<in> outcomes (getConnectionFromIdentifiers ks t st)"
    by (rule pick_outcomes [OF getConnectionFromIdentifiers_nonempty])
  then have "\<forall>k. dd_lookup (connections (snd (pick r (getConnectionFromIdentifiers ks t st)))) k
                = dd_lookup (connections st) k"
  proof (cases rule: getany_outcome)
    case (1 m st1)
    then show ?thesis
      using match_connections_outcomes [OF 1(1)] by (simp add: succeed_def new_deferred_def)
  next
    case (2 m st1 d st2)
    define st5 where "st5 = fold (\<lambda>ident s. s\<lparr>waiters := dd_apply (waiters s) ident (set_add d)\<rparr>) ks
                 (add_callback d Cb_conn_list (add_callback d (Discard_all ks) st2))"
    show ?thesis
      using match_connections_outcomes [OF 2(1)] getany_wait_state(5) [OF 2(3) st5_def] 2(4)
      by (simp add: st5_def)
  qed
  then show ?thesis using assms GetAny by (simp add: connections_distinct_def)
next
  case (Cancel w)
  then show ?thesis using assms by (simp add: connections_distinct_def)
next
  case (Advance dt)
  then show ?thesis using assms by (simp add: connections_distinct_def)
qed

lemma connections_distinct_run:
  "connections_distinct st \<Longrightarrow> connections_distinct (run evs st)"
  unfolding run_def by (induction evs arbitrary: st) (simp_all add: connections_distinct_step)

lemma connections_distinct_init: "connections_distinct init_registry"
  by (simp add: connections_distinct_def init_registry_def dd_lookup_def)

lemma run_append: "run (evs @ evs') st = run evs' (run evs st)"
  by (simp add: run_def)

section \<open>A Deferred fires once\<close>

lemma resolved_not_pending: "resolved st w \<Longrightarrow> \<not> pending st w"
  by (simp add: resolved_def pending_def)

lemma kept_fire:
  "resolved st w \<Longrightarrow> pending st w' \<Longrightarrow> deferreds (fire w' r st) ! w = deferreds st ! w"
  by (cases "w' = w") (auto simp: resolved_def pending_def)

lemma kept_cancel: "resolved st w \<Longrightarrow> deferreds (cancel w' st) ! w = deferreds st ! w"
  by (simp add: cancel_def kept_fire)

lemma resolved_kept:
  "resolved st w \<Longrightarrow> deferreds st' ! w = deferreds st ! w
     \<Longrightarrow> length (deferreds st) \<le> length (deferreds st') \<Longrightarrow> resolved st' w"
  by (simp add: resolved_def)

lemma kept_notify:
  "resolved st w \<Longrightarrow> deferreds (snd (notify_waiters ws c st)) ! w = deferreds st ! w"
proof (induction ws arbitrary: st)
  case Nil
  then show ?case by simp
next
  case (Cons w' ws)
  show ?case
  proof (cases "pending st w'")
    case True
    have k: "deferreds (fire w' (Inr (Connection c)) st) ! w = deferreds st ! w"
      using Cons.prems True by (rule kept_fire)
    then have "resolved (fire w' (Inr (Connection c)) st) w"
      using Cons.prems by (simp add: resolved_def)
    from Cons.IH [OF this] show ?thesis using True k by (simp add: callback_def)
  next
    case False
    then show ?thesis by (simp add: callback_def)
  qed
qed

lemma addConnectionFor_deferreds:
  "deferreds (snd (addConnectionFor ident c st))
     = deferreds (snd (notify_waiters (dd_lookup (waiters st) ident) c
         (st\<lparr>connections := dd_apply (connections st) ident (set_add c),
             waiters := dd_touch (waiters st) ident\<rparr>)))"
  unfolding addConnectionFor_alt Let_def by simp

lemma kept_addConnectionFor:
  assumes "resolved st w"
  shows "deferreds (snd (addConnectionFor ident c st)) ! w = deferreds st ! w"
proof -
  let ?st2 = "st\<lparr>connections := dd_apply (connections st) ident (set_add c),
                 waiters := dd_touch (waiters st) ident\<rparr>"
  have "resolved ?st2 w" using assms by (simp add: resolved_def)
  from kept_notify [OF this] show ?thesis by (simp add: addConnectionFor_deferreds)
qed

lemma addConnectionFor_length [simp]:
  "length (deferreds (snd (addConnectionFor ident c st))) = length (deferreds st)"
  by (simp add: addConnectionFor_deferreds notify_waiters_frame)

lemma getClientFor_deferreds:
  assumes "x \<in> outcomes (getClientFor ident timeout st)"
  shows "\<exists>d. deferreds (snd x) = deferreds st @ [d]"
  using assms
  by (cases "dd_lookup (connections st) ident = []")
     (auto simp: getClientFor_wait getClientFor_now outcomes_def return_dist_def)

lemma getany_deferreds:
  assumes "x \<in> outcomes (getConnectionFromIdentifiers ks timeout st)"
  shows "\<exists>d. deferreds (snd x) = deferreds st @ [d]"
  using assms
proof (cases rule: getany_outcome)
  case (1 m st1)
  then show ?thesis
    using match_connections_outcomes [OF 1(1)] by (simp add: succeed_def new_deferred_def)
next
  case (2 m st1 d st2)
  define st5 where "st5 = fold (\<lambda>ident s. s\<lparr>waiters := dd_apply (waiters s) ident (set_add d)\<rparr>) ks
                 (add_callback d Cb_conn_list (add_callback d (Discard_all ks) st2))"
  show ?thesis
    using match_connections_outcomes [OF 2(1)] getany_wait_state(2) [OF 2(3) st5_def] 2(4)
    by (simp add: st5_def)
qed

lemma kept_run_delayed_call:
  "resolved st w \<Longrightarrow> deferreds (run_delayed_call c st) ! w = deferreds st ! w"
proof -
  assume r: "resolved st w"
  then have "resolved (st\<lparr>delayed_calls := remove1 c (delayed_calls st)\<rparr>) w"
    by (simp add: resolved_def)
  from kept_cancel [OF this] show ?thesis by (simp add: run_delayed_call_def)
qed

lemma kept_fold_delayed:
  "resolved st w \<Longrightarrow> deferreds (fold run_delayed_call cs st) ! w = deferreds st ! w"
proof (induction cs arbitrary: st)
  case Nil
  then show ?case by simp
next
  case (Cons c cs)
  have k: "deferreds (run_delayed_call c st) ! w = deferreds st ! w"
    using Cons.prems by (rule kept_run_delayed_call)
  then have "resolved (run_delayed_call c st) w"
    using Cons.prems by (simp add: resolved_def)
  from Cons.IH [OF this] show ?case using k by simp
qed

lemma kept_advance: "resolved st w \<Longrightarrow> deferreds (advance dt st) ! w = deferreds st ! w"
proof -
  assume "resolved st w"
  then have "resolved (st\<lparr>seconds := seconds st + dt\<rparr>) w" by (simp add: resolved_def)
  from kept_fold_delayed [OF this] show ?thesis by (simp add: advance_def Let_def)
qed

lemma length_step: "length (deferreds st) \<le> length (deferreds (step ev st))"
proof (cases ev)
  case (Get k t r)
  have "pick r (getClientFor k t st) \<in> outcomes (getClientFor k t st)"
    by (rule pick_outcomes [OF getClientFor_nonempty])
  from getClientFor_deferreds [OF this] show ?thesis using Get by auto
next
  case (GetAny ks t r)
  have "pick r (getConnectionFromIdentifiers ks t st)
          \<in> outcomes (getConnectionFromIdentifiers ks t st)"
    by (rule pick_outcomes [OF getConnectionFromIdentifiers_nonempty])
  from getany_deferreds [OF this] show ?thesis using GetAny by auto
qed (simp_all add: removeConnectionFor_def)

lemma kept_step:
  assumes "resolved st w"
  shows "deferreds (step ev st) ! w = deferreds st ! w"
proof (cases ev)
  case (Register k c)
  then show ?thesis using assms by (simp add: kept_addConnectionFor)
next
  case (Unregister k c)
  then show ?thesis by (simp add: removeConnectionFor_def)
next
  case (Get k t r)
  have "pick r (getClientFor k t st) \<in> outcomes (getClientFor k t st)"
    by (rule pick_outcomes [OF getClientFor_nonempty])
  from getClientFor_deferreds [OF this] show ?thesis
    using Get assms by (auto simp: resolved_def nth_append)
next
  case (GetAny ks t r)
  have "pick r (getConnectionFromIdentifiers ks t st)
          \<in> outcomes (getConnectionFromIdentifiers ks t st)"
    by (rule pick_outcomes [OF getConnectionFromIdentifiers_nonempty])
  from getany_deferreds [OF this] show ?thesis
    using GetAny assms by (auto simp: resolved_def nth_append)
next
  case (Cancel w')
  then show ?thesis using assms by (simp add: kept_cancel)
next
  case (Advance dt)
  then show ?thesis using assms by (simp add: kept_advance)
qed

lemma kept_run:
  "resolved st w \<Longrightarrow> deferreds (run evs st) ! w = deferreds st ! w \<and> resolved (run evs st) w"
  unfolding run_def
proof (induction evs arbitrary: st)
  case Nil
  then show ?case by simp
next
  case (Cons ev evs)
  have k: "deferreds (step ev st) ! w = deferreds st ! w"
    using Cons.prems by (rule kept_step)
  have "resolved (step ev st) w"
    using resolved_kept [OF Cons.prems k length_step] .
  from Cons.IH [OF this] show ?case using k by simp
qed

section \<open>\<^verbatim>\<open>_addConnectionFor\<close> on a consistent state\<close>

lemma run_callback_carries:
  "\<exists>v'. fst (run_callback w cb (Inr v, st)) = Inr v' \<and> conns_of v' = conns_of v"
  by (cases cb; cases v) auto

lemma fold_run_callback_carries:
  "\<exists>v'. fst (fold (run_callback w) cbs (Inr v, st)) = Inr v' \<and> conns_of v' = conns_of v"
proof (induction cbs arbitrary: v st)
  case Nil
  then show ?case by simp
next
  case (Cons cb cbs)
  obtain v1 where v1: "fst (run_callback w cb (Inr v, st)) = Inr v1" "conns_of v1 = conns_of v"
    using run_callback_carries by blast
  obtain v2 where "fst (fold (run_callback w) cbs (Inr v1, snd (run_callback w cb (Inr v, st)))) = Inr v2"
      "conns_of v2 = conns_of v1"
    using Cons.IH by blast
  moreover have "run_callback w cb (Inr v, st) = (Inr v1, snd (run_callback w cb (Inr v, st)))"
    using v1(1) by (simp add: prod_eq_iff)
  ultimately show ?case using v1(2) by simp
qed

lemma fire_carries:
  assumes "w < length (deferreds st)"
  shows "\<exists>v'. d_result (deferreds (fire w (Inr v) st) ! w) = Some (Inr v') \<and> conns_of v' = conns_of v"
  using fold_run_callback_carries [of w "d_callbacks (deferreds st ! w)" v st] assms
  by (simp add: fire_self)

lemma notify_waiters_subset:
  "set (dd_lookup (waiters (snd (notify_waiters ws c st))) k) \<subseteq> set (dd_lookup (waiters st) k)"
proof (induction ws arbitrary: st)
  case Nil
  then show ?case by simp
next
  case (Cons w ws)
  show ?case
  proof (cases "pending st w")
    case True
    have "set (dd_lookup (waiters (fire w (Inr (Connection c)) st)) k) \<subseteq> set (dd_lookup (waiters st) k)"
      by (auto simp: fire_waiters)
    with Cons.IH [of "fire w (Inr (Connection c)) st"] show ?thesis
      using True by (auto simp: callback_def)
  next
    case False
    then show ?thesis by (simp add: callback_def)
  qed
qed

lemma notify_waiters_all:
  assumes "\<forall>w \<in> set ws. pending st w" and "distinct ws"
  shows "fst (notify_waiters ws c st) = None
     \<and> (\<forall>w \<in> set ws. \<exists>v. d_result (deferreds (snd (notify_waiters ws c st)) ! w) = Some (Inr v)
                          \<and> conns_of v = [c])"
  using assms
proof (induction ws arbitrary: st)
  case Nil
  then show ?case by simp
next
  case (Cons w ws)
  let ?st1 = "fire w (Inr (Connection c)) st"
  have pw: "pending st w" using Cons.prems by simp
  then have lw: "w < length (deferreds st)" by (simp add: pending_def)
  have rest: "\<forall>w' \<in> set ws. pending ?st1 w'"
    using Cons.prems pw by (auto simp: pending_fire)
  have d: "distinct ws" using Cons.prems by simp
  note IH = Cons.IH [OF rest d]
  have eq: "notify_waiters (w # ws) c st = notify_waiters ws c ?st1"
    using pw by (simp add: callback_def)
  obtain v where v: "d_result (deferreds ?st1 ! w) = Some (Inr v)" "conns_of v = [c]"
    using fire_carries [OF lw, of "Connection c"] by auto
  then have "resolved ?st1 w" using lw by (simp add: resolved_def)
  from kept_notify [OF this] have "d_result (deferreds (snd (notify_waiters ws c ?st1)) ! w) = Some (Inr v)"
    using v(1) by simp
  with IH v(2) show ?case unfolding eq by auto
qed

lemma addConnectionFor_fst:
  "fst (addConnectionFor ident c st)
     = fst (notify_waiters (dd_lookup (waiters st) ident) c
         (st\<lparr>connections := dd_apply (connections st) ident (set_add c),
             waiters := dd_touch (waiters st) ident\<rparr>))"
  by (auto simp: addConnectionFor_def Let_def split: prod.splits option.splits)

lemma addConnectionFor_when_consistent:
  assumes c: "waiters_consistent st" and d: "waiters_distinct st"
  shows "fst (addConnectionFor ident conn st) = None"
    and "\<forall>w \<in> set (dd_lookup (waiters st) ident).
           \<exists>v. d_result (deferreds (snd (addConnectionFor ident conn st)) ! w) = Some (Inr v)
               \<and> conns_of v = [conn]"
    and "dd_lookup (waiters (snd (addConnectionFor ident conn st))) ident = []"
    and "events (snd (addConnectionFor ident conn st)) = events st @ [Connected ident]"
proof -
  let ?st2 = "st\<lparr>connections := dd_apply (connections st) ident (set_add conn),
                 waiters := dd_touch (waiters st) ident\<rparr>"
  let ?ws = "dd_lookup (waiters st) ident"
  have p: "\<forall>w \<in> set ?ws. pending ?st2 w"
    using c by (simp add: waiters_consistent_def pending_def)
  have dw: "distinct ?ws" using d by (simp add: waiters_distinct_def)
  note n = notify_waiters_all [OF p dw, of conn]
  show none: "fst (addConnectionFor ident conn st) = None"
    using n by (simp add: addConnectionFor_fst)
  show all: "\<forall>w \<in> set ?ws.
           \<exists>v. d_result (deferreds (snd (addConnectionFor ident conn st)) ! w) = Some (Inr v)
               \<and> conns_of v = [conn]"
    using n by (simp add: addConnectionFor_deferreds)
  show "events (snd (addConnectionFor ident conn st)) = events st @ [Connected ident]"
    using n unfolding addConnectionFor_alt Let_def by (simp add: notify_waiters_frame)
  have c': "waiters_consistent (snd (addConnectionFor ident conn st))"
    using c by (rule waiters_consistent_addConnectionFor)
  have sub: "set (dd_lookup (waiters (snd (addConnectionFor ident conn st))) ident) \<subseteq> set ?ws"
    using notify_waiters_subset [of ?ws conn ?st2 ident]
    unfolding addConnectionFor_alt Let_def by simp
  show "dd_lookup (waiters (snd (addConnectionFor ident conn st))) ident = []"
  proof (cases "dd_lookup (waiters (snd (addConnectionFor ident conn st))) ident")
    case Nil
    then show ?thesis .
  next
    case (Cons w ws)
    then have w: "w \<in> set (dd_lookup (waiters (snd (addConnectionFor ident conn st))) ident)"
      by simp
    then have "pending (snd (addConnectionFor ident conn st)) w"
      using c' by (simp add: waiters_consistent_def)
    moreover have "w \<in> set ?ws" using w sub by blast
    then have "d_result (deferreds (snd (addConnectionFor ident conn st)) ! w) \<noteq> None"
      using all by auto
    ultimately show ?thesis by (simp add: pending_def)
  qed
qed

section \<open>Register and the waiters\<close>

text \<open>
  C2, as stated, fails: the new session does not go to a single waiter. With two callers
  waiting for \<^verbatim>\<open>rack-a\<close>, one call of \<^verbatim>\<open>_addConnectionFor\<close> resolves both of them with
  the same session.
\<close>

theorem register_resolves_both_counterexample:
  "d_result (deferreds (snd (addConnectionFor ''rack-a'' 7 two_waiters)) ! 0)
     = Some (Inr (Client (Connection 7)))
   \<and> d_result (deferreds (snd (addConnectionFor ''rack-a'' 7 two_waiters)) ! 1)
     = Some (Inr (Client (Connection 7)))"
  by (simp add: two_waiters_eq registry_eval)

text \<open>
  C2, amended: in every state that the service can reach, \<^verbatim>\<open>_addConnectionFor\<close> adds the
  session to the identity's set, resolves every waiter that is pending for that
  identity with the new session (each Deferred ends with a value that carries exactly
  this session), leaves the identity's waiter set empty, raises nothing, and fires one
  \<^verbatim>\<open>connected\<close> notification.
\<close>

theorem register_resolves_every_waiter:
  "fst (addConnectionFor ident c (run evs init_registry)) = None
   \<and> (\<forall>w \<in> set (dd_lookup (waiters (run evs init_registry)) ident).
        \<exists>v. d_result (deferreds (snd (addConnectionFor ident c (run evs init_registry))) ! w)
               = Some (Inr v)
            \<and> conns_of v = [c])
   \<and> dd_lookup (waiters (snd (addConnectionFor ident c (run evs init_registry)))) ident = []
   \<and> events (snd (addConnectionFor ident c (run evs init_registry)))
       = events (run evs init_registry) @ [Connected ident]
   \<and> set (dd_lookup (connections (snd (addConnectionFor ident c (run evs init_registry)))) ident)
       = insert c (set (dd_lookup (connections (run evs init_registry)) ident))"
proof -
  have c: "waiters_consistent (run evs (init_registry :: 'a registry))"
    by (rule waiters_consistent_run [OF waiters_consistent_init])
  have d: "waiters_distinct (run evs (init_registry :: 'a registry))"
    by (rule waiters_distinct_run [OF waiters_distinct_init])
  show ?thesis
    using addConnectionFor_when_consistent [OF c d, of ident c]
    by (simp add: addConnectionFor_connections dd_lookup_apply)
qed

theorem register_resolves_every_waiter_witness:
  "set (dd_lookup (waiters two_waiters) ''rack-a'') = {0, 1}
   \<and> fst (addConnectionFor ''rack-a'' 7 two_waiters) = None
   \<and> dd_lookup (waiters (snd (addConnectionFor ''rack-a'' 7 two_waiters))) ''rack-a'' = []
   \<and> events (snd (addConnectionFor ''rack-a'' 7 two_waiters)) = [Connected ''rack-a'']
   \<and> (\<exists>v. d_result (deferreds (snd (addConnectionFor ''rack-a'' 7 two_waiters)) ! 1) = Some (Inr v)
          \<and> conns_of v = [7])"
proof -
  have m: "set (dd_lookup (waiters two_waiters) ''rack-a'') = {0, 1}"
    by (auto simp: two_waiters_eq dd_lookup_def)
  have e: "events two_waiters = []" by (simp add: two_waiters_eq)
  show ?thesis
    using register_resolves_every_waiter [of "''rack-a''" 7 "[Get ''rack-a'' 30 0, Get ''rack-a'' 30 0]"]
    unfolding two_waiters_def [symmetric] by (simp add: m e)
qed

section \<open>A waiter until its timeout\<close>

lemma waiting_fire_other:
  assumes "waiting_for st w ident t" and "w' \<noteq> w"
  shows "waiting_for (fire w' r st) w ident t"
  using assms by (auto simp: waiting_for_def pending_def fire_delayed)

lemma waiting_fire_self:
  assumes "waiting_for st w ident t"
  shows "unavailable (fire w (Inl CancelledError) st) w"
  using assms by (simp add: waiting_for_def unavailable_def pending_def fire_self)

lemma waiting_cancel:
  assumes "waiting_for st w ident t"
  shows "waiting_for (cancel w' st) w ident t \<or> unavailable (cancel w' st) w"
proof (cases "w' = w")
  case True
  then show ?thesis
    using assms waiting_fire_self [OF assms] by (simp add: cancel_def waiting_for_def)
next
  case False
  then show ?thesis using assms by (simp add: cancel_def waiting_fire_other)
qed

lemma unavailable_resolved: "unavailable st w \<Longrightarrow> resolved st w"
  by (simp add: unavailable_def resolved_def)

lemma unavailable_kept:
  "unavailable st w \<Longrightarrow> deferreds st' ! w = deferreds st ! w
     \<Longrightarrow> length (deferreds st) \<le> length (deferreds st') \<Longrightarrow> unavailable st' w"
  by (simp add: unavailable_def)

lemma unavailable_step: "unavailable st w \<Longrightarrow> unavailable (step ev st) w"
  using kept_step [OF unavailable_resolved] length_step unavailable_kept by metis

lemma unavailable_run: "unavailable st w \<Longrightarrow> unavailable (run evs st) w"
  unfolding run_def by (induction evs arbitrary: st) (simp_all add: unavailable_step)

lemma waiting_notify:
  assumes "waiting_for st w ident t" and "w \<notin> set ws"
  shows "waiting_for (snd (notify_waiters ws c st)) w ident t"
  using assms
proof (induction ws arbitrary: st)
  case Nil
  then show ?case by simp
next
  case (Cons w' ws)
  then have "w' \<noteq> w" by auto
  then have "waiting_for (fire w' (Inr (Connection c)) st) w ident t"
    using Cons.prems(1) by (simp add: waiting_fire_other)
  then have "waiting_for (snd (notify_waiters ws c (fire w' (Inr (Connection c)) st))) w ident t"
    using Cons.prems(2) by (intro Cons.IH) simp_all
  then show ?case using Cons.prems(1) by (simp add: callback_def)
qed

lemma waiting_registered:
  "waiting_for st w ident t \<Longrightarrow> registered_under st w = {ident}"
  by (simp add: waiting_for_def registered_under_def)

lemma waiting_addConnectionFor:
  assumes w: "waiting_for st w ident t" and c: "waiters_consistent st" and k: "k \<noteq> ident"
  shows "waiting_for (snd (addConnectionFor k conn st)) w ident t"
proof -
  let ?st2 = "st\<lparr>connections := dd_apply (connections st) k (set_add conn),
                 waiters := dd_touch (waiters st) k\<rparr>"
  have "w \<notin> set (dd_lookup (waiters st) k)"
    using c k waiting_registered [OF w] by (simp add: waiters_consistent_def)
  moreover have "waiting_for ?st2 w ident t"
    using w by (simp add: waiting_for_def pending_def)
  ultimately have "waiting_for (snd (notify_waiters (dd_lookup (waiters st) k) conn ?st2)) w ident t"
    by (intro waiting_notify)
  then show ?thesis
    unfolding addConnectionFor_alt Let_def by (simp add: waiting_for_def pending_def)
qed

lemma getClientFor_delayed:
  assumes "x \<in> outcomes (getClientFor ident timeout st)"
  shows "set (delayed_calls st) \<subseteq> set (delayed_calls (snd x))"
  using assms
  by (cases "dd_lookup (connections st) ident = []")
     (auto simp: getClientFor_wait getClientFor_now outcomes_def return_dist_def)

lemma getany_delayed:
  assumes "x \<in> outcomes (getConnectionFromIdentifiers ks timeout st)"
  shows "set (delayed_calls st) \<subseteq> set (delayed_calls (snd x))"
  using assms
proof (cases rule: getany_outcome)
  case (1 m st1)
  then show ?thesis
    using match_connections_outcomes [OF 1(1)] by (simp add: succeed_def new_deferred_def)
next
  case (2 m st1 d st2)
  define st5 where "st5 = fold (\<lambda>ident s. s\<lparr>waiters := dd_apply (waiters s) ident (set_add d)\<rparr>) ks
                 (add_callback d Cb_conn_list (add_callback d (Discard_all ks) st2))"
  show ?thesis
    using match_connections_outcomes [OF 2(1)] getany_wait_state(4) [OF 2(3) st5_def] 2(4)
    by (auto simp: st5_def)
qed

lemma waiting_appended:
  assumes "waiting_for st w ident t" and "deferreds st' = deferreds st @ [d]"
    and "set (delayed_calls st) \<subseteq> set (delayed_calls st')"
  shows "waiting_for st' w ident t"
  using assms by (auto simp: waiting_for_def pending_def nth_append)

lemma waiting_run_delayed_call:
  assumes "waiting_for st w ident t"
  shows "(c = (t, w) \<longrightarrow> unavailable (run_delayed_call c st) w)
     \<and> (waiting_for (run_delayed_call c st) w ident t \<or> unavailable (run_delayed_call c st) w)"
proof (cases "c = (t, w)")
  case True
  let ?st' = "st\<lparr>delayed_calls := remove1 c (delayed_calls st)\<rparr>"
  have p: "pending ?st' w" and cb: "d_callbacks (deferreds ?st' ! w) = [Timeout_done, Discard ident, Client_or_unavailable]"
    using assms by (simp_all add: waiting_for_def pending_def)
  have "unavailable (fire w (Inl CancelledError) ?st') w"
    using p cb by (simp add: unavailable_def pending_def fire_self)
  then have "unavailable (run_delayed_call c st) w"
    using True assms p by (simp add: run_delayed_call_def waiting_for_def cancel_def)
  then show ?thesis by blast
next
  case False
  let ?st' = "st\<lparr>delayed_calls := remove1 c (delayed_calls st)\<rparr>"
  have "(t, w) \<in> set (remove1 c (delayed_calls st))"
    using assms False by (simp add: waiting_for_def)
  then have "waiting_for ?st' w ident t"
    using assms by (simp add: waiting_for_def pending_def)
  from waiting_cancel [OF this] show ?thesis
    using False assms by (auto simp: run_delayed_call_def)
qed

lemma unavailable_run_delayed_call:
  "unavailable st w \<Longrightarrow> unavailable (run_delayed_call c st) w"
  using kept_run_delayed_call [OF unavailable_resolved] unavailable_kept
  by (metis order_refl run_delayed_call_frame(4))

lemma unavailable_fold_delayed:
  "unavailable st w \<Longrightarrow> unavailable (fold run_delayed_call cs st) w"
  by (induction cs arbitrary: st) (simp_all add: unavailable_run_delayed_call)

lemma waiting_fold_delayed:
  assumes "waiting_for st w ident t"
  shows "((t, w) \<in> set cs \<longrightarrow> unavailable (fold run_delayed_call cs st) w)
     \<and> (waiting_for (fold run_delayed_call cs st) w ident t
        \<or> unavailable (fold run_delayed_call cs st) w)"
  using assms
proof (induction cs arbitrary: st)
  case Nil
  then show ?case by simp
next
  case (Cons c cs)
  note s = waiting_run_delayed_call [OF Cons.prems, of c]
  show ?case
  proof (cases "unavailable (run_delayed_call c st) w")
    case True
    then show ?thesis by (simp add: unavailable_fold_delayed)
  next
    case False
    then have "waiting_for (run_delayed_call c st) w ident t" and "c \<noteq> (t, w)"
      using s by auto
    with Cons.IH [of "run_delayed_call c st"] show ?thesis by auto
  qed
qed

lemma waiting_advance:
  assumes "waiting_for st w ident t"
  shows "(t \<le> seconds st + dt \<longrightarrow> unavailable (advance dt st) w)
     \<and> (waiting_for (advance dt st) w ident t \<or> unavailable (advance dt st) w)"
proof -
  let ?st1 = "st\<lparr>seconds := seconds st + dt\<rparr>"
  let ?due = "sort_key fst (filter (\<lambda>c. fst c \<le> seconds ?st1) (delayed_calls ?st1))"
  have w1: "waiting_for ?st1 w ident t"
    using assms by (simp add: waiting_for_def pending_def)
  have "t \<le> seconds st + dt \<Longrightarrow> (t, w) \<in> set ?due"
    using assms by (simp add: waiting_for_def)
  with waiting_fold_delayed [OF w1, of ?due] show ?thesis
    by (auto simp: advance_def Let_def)
qed

section \<open>The timeout of a waiter; the immediate choice\<close>

lemma waiting_step:
  assumes w: "waiting_for st w ident t" and c: "waiters_consistent st"
    and ev: "\<forall>conn. ev \<noteq> Register ident conn"
  shows "waiting_for (step ev st) w ident t \<or> unavailable (step ev st) w"
proof (cases ev)
  case (Register k conn)
  then have "k \<noteq> ident" using ev by auto
  from waiting_addConnectionFor [OF w c this] show ?thesis using Register by simp
next
  case (Unregister k conn)
  then show ?thesis using w by (simp add: removeConnectionFor_def waiting_for_def pending_def)
next
  case (Get k timeout r)
  have p: "pick r (getClientFor k timeout st) \<in> outcomes (getClientFor k timeout st)"
    by (rule pick_outcomes [OF getClientFor_nonempty])
  obtain d where "deferreds (snd (pick r (getClientFor k timeout st))) = deferreds st @ [d]"
    using getClientFor_deferreds [OF p] by blast
  from waiting_appended [OF w this getClientFor_delayed [OF p]] show ?thesis using Get by simp
next
  case (GetAny ks timeout r)
  have p: "pick r (getConnectionFromIdentifiers ks timeout st)
          \<in> outcomes (getConnectionFromIdentifiers ks timeout st)"
    by (rule pick_outcomes [OF getConnectionFromIdentifiers_nonempty])
  obtain d where "deferreds (snd (pick r (getConnectionFromIdentifiers ks timeout st)))
                    = deferreds st @ [d]"
    using getany_deferreds [OF p] by blast
  from waiting_appended [OF w this getany_delayed [OF p]] show ?thesis using GetAny by simp
next
  case (Cancel w')
  then show ?thesis using waiting_cancel [OF w] by simp
next
  case (Advance dt)
  then show ?thesis using waiting_advance [OF w] by simp
qed

lemma waiting_run:
  assumes "waiting_for st w ident t \<or> unavailable st w" and "waiters_consistent st"
    and "\<forall>conn. Register ident conn \<notin> set evs"
  shows "waiting_for (run evs st) w ident t \<or> unavailable (run evs st) w"
  using assms unfolding run_def
proof (induction evs arbitrary: st)
  case Nil
  then show ?case by simp
next
  case (Cons ev evs)
  have ev: "\<forall>conn. ev \<noteq> Register ident conn" using Cons.prems(3) by auto
  have "waiting_for (step ev st) w ident t \<or> unavailable (step ev st) w"
    using Cons.prems(1) waiting_step [OF _ Cons.prems(2) ev] unavailable_step by blast
  moreover have "waiters_consistent (step ev st)"
    using Cons.prems(2) by (rule waiters_consistent_step)
  ultimately show ?case using Cons.IH [of "step ev st"] Cons.prems(3) by simp
qed

lemma waiting_times_out:
  assumes w: "waiting_for st w ident t" and c: "waiters_consistent st"
    and evs: "\<forall>conn. Register ident conn \<notin> set (evs1 @ evs2)"
    and t: "t \<le> seconds (run evs1 st) + dt"
  shows "unavailable (run (evs1 @ Advance dt # evs2) st) w"
    and "w \<notin> set (dd_lookup (waiters (run (evs1 @ Advance dt # evs2) st)) k)"
proof -
  have "waiting_for (run evs1 st) w ident t \<or> unavailable (run evs1 st) w"
    using w c evs by (intro waiting_run) auto
  then have "unavailable (advance dt (run evs1 st)) w"
  proof
    assume "waiting_for (run evs1 st) w ident t"
    from waiting_advance [OF this, of dt] t show ?thesis by simp
  next
    assume "unavailable (run evs1 st) w"
    then show ?thesis using unavailable_step [of "run evs1 st" w "Advance dt"] by simp
  qed
  then have "unavailable (run evs2 (advance dt (run evs1 st))) w"
    by (rule unavailable_run)
  then show u: "unavailable (run (evs1 @ Advance dt # evs2) st) w"
    by (simp add: run_def)
  have "waiters_consistent (run (evs1 @ Advance dt # evs2) st)"
    using c by (rule waiters_consistent_run)
  then show "w \<notin> set (dd_lookup (waiters (run (evs1 @ Advance dt # evs2) st)) k)"
    using resolved_not_pending [OF unavailable_resolved [OF u]]
    by (simp add: waiters_consistent_def)
qed

lemma prob_map_const:
  "prob (map (\<lambda>y. (w, g y)) xs) x = w * of_nat (count_list (map g xs) x)"
  using prob_const_weights [of w "map g xs" x] by (simp add: o_def)

lemma getClientFor_now_results:
  assumes "dd_lookup (connections st) ident \<noteq> []"
  shows "map_dist result_of (getClientFor ident timeout st)
     = map (\<lambda>c. (1 / of_nat (length (dd_lookup (connections st) ident)),
                  Some (Inr (Client (Connection c)))))
         (dd_lookup (connections st) ident)"
  by (simp add: getClientFor_now [OF assms] map_dist_def result_of_def o_def)

lemma getClientFor_uniform:
  assumes "distinct (dd_lookup (connections st) ident)"
    and "c \<in> set (dd_lookup (connections st) ident)"
  shows "prob (map_dist result_of (getClientFor ident timeout st))
           (Some (Inr (Client (Connection c))))
         = 1 / of_nat (card (set (dd_lookup (connections st) ident)))"
proof -
  let ?conns = "dd_lookup (connections st) ident"
  have ne: "?conns \<noteq> []" using assms(2) by auto
  have "count_list (map (\<lambda>c. Some (Inr (Client (Connection c)) :: error + val)) ?conns)
          (Some (Inr (Client (Connection c)))) = count_list ?conns c"
    by (rule count_list_inj_map) (simp_all add: inj_on_def assms(2))
  also have "\<dots> = 1" using assms by (rule count_list_distinct)
  finally show ?thesis
    by (simp add: getClientFor_now_results [OF ne] prob_map_const distinct_card [OF assms(1)])
qed

section \<open>\<^verbatim>\<open>getClientFor\<close>\<close>

lemma addConnectionFor_seconds [simp]:
  "seconds (snd (addConnectionFor ident c st)) = seconds st"
  unfolding addConnectionFor_alt Let_def by (simp add: notify_waiters_frame)

text \<open>
  C1: in every state \<open>st\<close> that the service can reach, for every identity and timeout:
  when the identity has a live session, every outcome of \<^verbatim>\<open>getClientFor\<close> is a Deferred
  that has already fired with a client for one of the identity's sessions, and each of
  these sessions is the outcome with the same probability, one over their number.
  Otherwise the call returns a pending waiter that is in the identity's waiter set and
  has its cancellation scheduled \<open>timeout\<close> seconds from now; and whatever happens next,
  as long as no register for that identity is among it, once the reactor runs its
  delayed calls at or after that time the waiter has failed with
  \<^verbatim>\<open>NoConnectionsAvailable\<close> and is in no waiter set.
\<close>

theorem getClientFor_now_or_after_timeout:
  assumes "st = run evs0 init_registry"
  shows
    "(dd_lookup (connections st) ident \<noteq> [] \<longrightarrow>
        (\<forall>x \<in> outcomes (getClientFor ident timeout st).
           \<exists>c \<in> set (dd_lookup (connections st) ident).
             result_of x = Some (Inr (Client (Connection c))))
        \<and> (\<forall>c \<in> set (dd_lookup (connections st) ident).
             prob (map_dist result_of (getClientFor ident timeout st))
               (Some (Inr (Client (Connection c))))
             = 1 / of_nat (card (set (dd_lookup (connections st) ident)))))
     \<and> (dd_lookup (connections st) ident = [] \<longrightarrow>
        (\<exists>w st1. getClientFor ident timeout st = return_dist (w, st1)
           \<and> result_of (w, st1) = None
           \<and> w \<in> set (dd_lookup (waiters st1) ident)
           \<and> (seconds st + timeout, w) \<in> set (delayed_calls st1)
           \<and> (\<forall>evs1 dt evs2.
                 (\<forall>conn. Register ident conn \<notin> set (evs1 @ evs2))
                 \<and> seconds st + timeout \<le> seconds (run evs1 st1) + dt
                 \<longrightarrow> d_result (deferreds (run (evs1 @ Advance dt # evs2) st1) ! w)
                       = Some (Inl NoConnectionsAvailable)
                     \<and> (\<forall>k. w \<notin> set (dd_lookup (waiters (run (evs1 @ Advance dt # evs2) st1)) k)))))"
proof (intro conjI impI)
  assume ne: "dd_lookup (connections st) ident \<noteq> []"
  show "\<forall>x \<in> outcomes (getClientFor ident timeout st).
           \<exists>c \<in> set (dd_lookup (connections st) ident).
             result_of x = Some (Inr (Client (Connection c)))"
    by (auto simp: getClientFor_now [OF ne] outcomes_def result_of_def)
  have "connections_distinct st"
    unfolding assms by (rule connections_distinct_run [OF connections_distinct_init])
  then have d: "distinct (dd_lookup (connections st) ident)"
    by (simp add: connections_distinct_def)
  show "\<forall>c \<in> set (dd_lookup (connections st) ident).
             prob (map_dist result_of (getClientFor ident timeout st))
               (Some (Inr (Client (Connection c))))
             = 1 / of_nat (card (set (dd_lookup (connections st) ident)))"
    using getClientFor_uniform [OF d] by blast
next
  assume e: "dd_lookup (connections st) ident = []"
  let ?w = "length (deferreds st)"
  let ?st1 = "st\<lparr>connections := dd_touch (connections st) ident,
          waiters := dd_apply (waiters st) ident (set_add ?w),
          deferreds := deferreds st @
            [\<lparr>d_result = None,
              d_callbacks = [Timeout_done, Discard ident, Client_or_unavailable]\<rparr>],
          delayed_calls := delayed_calls st @ [(seconds st + timeout, ?w)]\<rparr>"
  have g: "getClientFor ident timeout st = return_dist (?w, ?st1)"
    by (rule getClientFor_wait [OF e])
  have c: "waiters_consistent st"
    unfolding assms by (rule waiters_consistent_run [OF waiters_consistent_init])
  have "(?w, ?st1) \<in> outcomes (getClientFor ident timeout st)" by (simp add: g)
  from waiters_consistent_getClientFor [OF c this] have c1: "waiters_consistent ?st1" by simp
  have w1: "waiting_for ?st1 ?w ident (seconds st + timeout)"
    by (simp add: waiting_for_def pending_def)
  have r: "result_of (?w, ?st1) = None" by (simp add: result_of_def)
  have m: "?w \<in> set (dd_lookup (waiters ?st1) ident)" by (simp add: dd_lookup_apply)
  have t: "(seconds st + timeout, ?w) \<in> set (delayed_calls ?st1)" by simp
  have f: "\<forall>evs1 dt evs2.
                 (\<forall>conn. Register ident conn \<notin> set (evs1 @ evs2))
                 \<and> seconds st + timeout \<le> seconds (run evs1 ?st1) + dt
                 \<longrightarrow> d_result (deferreds (run (evs1 @ Advance dt # evs2) ?st1) ! ?w)
                       = Some (Inl NoConnectionsAvailable)
                     \<and> (\<forall>k. ?w \<notin> set (dd_lookup (waiters (run (evs1 @ Advance dt # evs2) ?st1)) k))"
  proof (intro allI impI)
    fix evs1 dt evs2
    assume a: "(\<forall>conn. Register ident conn \<notin> set (evs1 @ evs2))
                 \<and> seconds st + timeout \<le> seconds (run evs1 ?st1) + dt"
    then have a1: "\<forall>conn. Register ident conn \<notin> set (evs1 @ evs2)"
      and a2: "seconds st + timeout \<le> seconds (run evs1 ?st1) + dt" by blast+
    note to = waiting_times_out [OF w1 c1 a1 a2]
    show "d_result (deferreds (run (evs1 @ Advance dt # evs2) ?st1) ! ?w)
                       = Some (Inl NoConnectionsAvailable)
                     \<and> (\<forall>k. ?w \<notin> set (dd_lookup (waiters (run (evs1 @ Advance dt # evs2) ?st1)) k))"
      using to by (simp add: unavailable_def)
  qed
  show "\<exists>w st1. getClientFor ident timeout st = return_dist (w, st1)
           \<and> result_of (w, st1) = None
           \<and> w \<in> set (dd_lookup (waiters st1) ident)
           \<and> (seconds st + timeout, w) \<in> set (delayed_calls st1)
           \<and> (\<forall>evs1 dt evs2.
                 (\<forall>conn. Register ident conn \<notin> set (evs1 @ evs2))
                 \<and> seconds st + timeout \<le> seconds (run evs1 st1) + dt
                 \<longrightarrow> d_result (deferreds (run (evs1 @ Advance dt # evs2) st1) ! w)
                       = Some (Inl NoConnectionsAvailable)
                     \<and> (\<forall>k. w \<notin> set (dd_lookup (waiters (run (evs1 @ Advance dt # evs2) st1)) k)))"
    using g r m t f by blast
qed


theorem getClientFor_now_or_after_timeout_witness:
  "prob (map_dist result_of (getClientFor ''rack-b'' 30 three_sessions))
     (Some (Inr (Client (Connection 2)))) = 1 / 2
   \<and> dd_lookup (connections (init_registry :: string registry)) ''rack-a'' = []
   \<and> d_result (deferreds (run [Get ''rack-a'' 30 0, Register ''rack-b'' 5, Advance 10,
                              Advance 20, Unregister ''rack-b'' 5] init_registry) ! 0)
       = Some (Inl NoConnectionsAvailable)"
proof -
  have l: "dd_lookup (connections three_sessions) ''rack-b'' = [2, 3]"
    by (simp add: three_sessions_eq dd_lookup_def)
  have a: "prob (map_dist result_of (getClientFor ''rack-b'' 30 three_sessions))
     (Some (Inr (Client (Connection 2)))) = 1 / 2"
    using getClientFor_now_or_after_timeout [OF three_sessions_def, of "''rack-b''" 30]
    by (simp add: l)
  have e: "dd_lookup (connections (init_registry :: string registry)) ''rack-a'' = []"
    by (simp add: init_registry_def dd_lookup_def)
  define S1 :: "string registry" where
    "S1 = \<lparr>connections = [(''rack-a'', [])], waiters = [(''rack-a'', [0])],
           deferreds = [\<lparr>d_result = None,
              d_callbacks = [Timeout_done, Discard ''rack-a'', Client_or_unavailable]\<rparr>],
           delayed_calls = [(30, 0)], seconds = 0, events = []\<rparr>"
  have g: "getClientFor ''rack-a'' 30 (init_registry :: string registry) = return_dist (0, S1)"
    by (simp add: S1_def registry_eval)
  have i: "(init_registry :: string registry) = run [] init_registry" by (simp add: run_def)
  from getClientFor_now_or_after_timeout [OF i, of "''rack-a''" 30] e
  obtain w st1 where g': "getClientFor ''rack-a'' 30 (init_registry :: string registry) = return_dist (w, st1)"
    and f: "\<forall>evs1 dt evs2.
                 (\<forall>conn. Register ''rack-a'' conn \<notin> set (evs1 @ evs2))
                 \<and> seconds (init_registry :: string registry) + 30 \<le> seconds (run evs1 st1) + dt
                 \<longrightarrow> d_result (deferreds (run (evs1 @ Advance dt # evs2) st1) ! w)
                       = Some (Inl NoConnectionsAvailable)
                     \<and> (\<forall>k. w \<notin> set (dd_lookup (waiters (run (evs1 @ Advance dt # evs2) st1)) k))"
    by blast
  have ws: "w = 0" "st1 = S1" using g g' by (simp_all add: return_dist_def)
  have s10: "seconds (run [Register ''rack-b'' 5, Advance 10] S1) = 10"
    by (simp add: run_def S1_def)
  have "(\<forall>conn. Register ''rack-a'' conn \<notin> set ([Register ''rack-b'' 5, Advance 10] @ [Unregister ''rack-b'' 5]))
        \<and> seconds (init_registry :: string registry) + 30
            \<le> seconds (run [Register ''rack-b'' 5, Advance 10] st1) + 20"
    by (simp add: ws s10 init_registry_def)
  with f have "d_result (deferreds (run ([Register ''rack-b'' 5, Advance 10] @ Advance 20 # [Unregister ''rack-b'' 5]) st1) ! w)
                       = Some (Inl NoConnectionsAvailable)"
    by blast
  moreover have "run [Get ''rack-a'' 30 0, Register ''rack-b'' 5, Advance 10,
                              Advance 20, Unregister ''rack-b'' 5] (init_registry :: string registry)
      = run ([Register ''rack-b'' 5, Advance 10] @ Advance 20 # [Unregister ''rack-b'' 5]) S1"
    by (simp add: run_def g return_dist_def pick_def)
  ultimately have b: "d_result (deferreds (run [Get ''rack-a'' 30 0, Register ''rack-b'' 5, Advance 10,
                              Advance 20, Unregister ''rack-b'' 5] (init_registry :: string registry)) ! 0)
       = Some (Inl NoConnectionsAvailable)"
    by (simp add: ws)
  show ?thesis using a e b by simp
qed

section \<open>The life of a waiter\<close>

lemma resolved_cancel: "w < length (deferreds st) \<Longrightarrow> resolved (cancel w st) w"
  by (auto simp: cancel_def resolved_def pending_def fire_self)

lemma due_run_delayed_call:
  assumes "w < length (deferreds st)"
    and "resolved st w \<or> (t, w) \<in> set (delayed_calls st)"
  shows "(c = (t, w) \<longrightarrow> resolved (run_delayed_call c st) w)
     \<and> (resolved (run_delayed_call c st) w \<or> (t, w) \<in> set (delayed_calls (run_delayed_call c st)))"
proof (cases "resolved st w")
  case True
  have "resolved (run_delayed_call c st) w"
    using resolved_kept [OF True kept_run_delayed_call [OF True]] by simp
  then show ?thesis by blast
next
  case False
  then have m: "(t, w) \<in> set (delayed_calls st)" using assms(2) by simp
  let ?st' = "st\<lparr>delayed_calls := remove1 c (delayed_calls st)\<rparr>"
  have l: "w < length (deferreds ?st')" using assms(1) by simp
  show ?thesis
  proof (cases "c \<in> set (delayed_calls st)")
    case inn: True
    show ?thesis
    proof (cases "snd c = w")
      case True
      have "run_delayed_call c st = cancel w ?st'"
        using inn True by (simp add: run_delayed_call_def)
      then have "resolved (run_delayed_call c st) w"
        using resolved_cancel [OF l] by simp
      then show ?thesis by blast
    next
      case False
      then have ne: "c \<noteq> (t, w)" by auto
      then have m': "(t, w) \<in> set (delayed_calls ?st')" using m by simp
      have "(t, w) \<in> set (delayed_calls (cancel (snd c) ?st'))"
        using m' False by (auto simp: cancel_def fire_delayed)
      moreover have "run_delayed_call c st = cancel (snd c) ?st'"
        using inn by (simp add: run_delayed_call_def)
      ultimately have "(t, w) \<in> set (delayed_calls (run_delayed_call c st))" by simp
      then show ?thesis using ne by blast
    qed
  next
    case False
    then have "run_delayed_call c st = st" by (simp add: run_delayed_call_def)
    then show ?thesis using m False by auto
  qed
qed

lemma due_fold_delayed:
  assumes "w < length (deferreds st)"
    and "resolved st w \<or> (t, w) \<in> set (delayed_calls st)"
    and "(t, w) \<in> set cs"
  shows "resolved (fold run_delayed_call cs st) w"
  using assms
proof (induction cs arbitrary: st)
  case Nil
  then show ?case by simp
next
  case (Cons c cs)
  note s = due_run_delayed_call [OF Cons.prems(1,2), of c]
  have l: "w < length (deferreds (run_delayed_call c st))" using Cons.prems(1) by simp
  show ?case
  proof (cases "c = (t, w)")
    case True
    then have r: "resolved (run_delayed_call c st) w" using s by simp
    have "resolved (fold run_delayed_call cs (run_delayed_call c st)) w"
      using resolved_kept [OF r kept_fold_delayed [OF r]] by simp
    then show ?thesis by simp
  next
    case False
    then have "(t, w) \<in> set cs" using Cons.prems(3) by simp
    from Cons.IH [OF l _ this] s show ?thesis by simp
  qed
qed

lemma due_advance:
  assumes "pending st w" and "(t, w) \<in> set (delayed_calls st)" and "t \<le> seconds st + dt"
  shows "resolved (advance dt st) w"
proof -
  let ?st1 = "st\<lparr>seconds := seconds st + dt\<rparr>"
  let ?due = "sort_key fst (filter (\<lambda>c. fst c \<le> seconds ?st1) (delayed_calls ?st1))"
  have "(t, w) \<in> set ?due" using assms by simp
  moreover have "w < length (deferreds ?st1)" using assms(1) by (simp add: pending_def)
  moreover have "resolved ?st1 w \<or> (t, w) \<in> set (delayed_calls ?st1)" using assms(2) by simp
  ultimately have "resolved (fold run_delayed_call ?due ?st1) w"
    by (intro due_fold_delayed)
  then show ?thesis by (simp add: advance_def Let_def)
qed

lemma resolved_in_no_set:
  "waiters_consistent st \<Longrightarrow> resolved st w \<Longrightarrow> w \<notin> set (dd_lookup (waiters st) k)"
  using resolved_not_pending by (auto simp: waiters_consistent_def)

text \<open>
  C5: in every state \<open>st\<close> that the service can reach, a waiter is in the waiter set of
  an identity exactly when it is still pending and was added under that identity: it
  stays in every set it was added to until it is resolved. Each of the three ways
  resolves it and leaves it in no waiter set: a register for an identity in whose set
  it is, its timeout call once that is due, and a cancellation. A resolved waiter keeps
  its result through everything that follows and is never in a waiter set again, so it
  is removed once and not twice.
\<close>

theorem waiter_removed_exactly_once:
  assumes "st = run evs init_registry"
  shows
    "(\<forall>k w. w \<in> set (dd_lookup (waiters st) k) \<longleftrightarrow> pending st w \<and> k \<in> registered_under st w)
     \<and> (\<forall>k w c. w \<in> set (dd_lookup (waiters st) k) \<longrightarrow>
           resolved (step (Register k c) st) w
           \<and> (\<forall>k'. w \<notin> set (dd_lookup (waiters (step (Register k c) st)) k')))
     \<and> (\<forall>w t dt. pending st w \<and> (t, w) \<in> set (delayed_calls st) \<and> t \<le> seconds st + dt \<longrightarrow>
           resolved (step (Advance dt) st) w
           \<and> (\<forall>k'. w \<notin> set (dd_lookup (waiters (step (Advance dt) st)) k')))
     \<and> (\<forall>w. pending st w \<longrightarrow>
           resolved (step (Cancel w) st) w
           \<and> (\<forall>k'. w \<notin> set (dd_lookup (waiters (step (Cancel w) st)) k')))
     \<and> (\<forall>w. resolved st w \<longrightarrow>
           deferreds (run evs' st) ! w = deferreds st ! w
           \<and> resolved (run evs' st) w
           \<and> (\<forall>k'. w \<notin> set (dd_lookup (waiters (run evs' st)) k')))"
proof -
  have c: "waiters_consistent st"
    unfolding assms by (rule waiters_consistent_run [OF waiters_consistent_init])
  have d: "waiters_distinct st"
    unfolding assms by (rule waiters_distinct_run [OF waiters_distinct_init])
  have cs: "\<And>ev. waiters_consistent (step ev st)"
    using c by (rule waiters_consistent_step)
  have 1: "\<forall>k w. w \<in> set (dd_lookup (waiters st) k) \<longleftrightarrow> pending st w \<and> k \<in> registered_under st w"
    using c by (simp add: waiters_consistent_def)
  have 2: "\<forall>k w c. w \<in> set (dd_lookup (waiters st) k) \<longrightarrow>
           resolved (step (Register k c) st) w
           \<and> (\<forall>k'. w \<notin> set (dd_lookup (waiters (step (Register k c) st)) k'))"
  proof (intro allI impI)
    fix k w conn assume m: "w \<in> set (dd_lookup (waiters st) k)"
    then have "w < length (deferreds st)" using c by (rule waiters_consistent_members [rotated])
    moreover have "d_result (deferreds (snd (addConnectionFor k conn st)) ! w) \<noteq> None"
      using addConnectionFor_when_consistent(2) [OF c d, of k conn] m by auto
    ultimately have r: "resolved (step (Register k conn) st) w"
      by (simp add: resolved_def)
    then show "resolved (step (Register k conn) st) w
           \<and> (\<forall>k'. w \<notin> set (dd_lookup (waiters (step (Register k conn) st)) k'))"
      using resolved_in_no_set [OF cs r] by blast
  qed
  have 3: "\<forall>w t dt. pending st w \<and> (t, w) \<in> set (delayed_calls st) \<and> t \<le> seconds st + dt \<longrightarrow>
           resolved (step (Advance dt) st) w
           \<and> (\<forall>k'. w \<notin> set (dd_lookup (waiters (step (Advance dt) st)) k'))"
  proof (intro allI impI)
    fix w t dt
    assume "pending st w \<and> (t, w) \<in> set (delayed_calls st) \<and> t \<le> seconds st + dt"
    then have r: "resolved (step (Advance dt) st) w" using due_advance [of st w t dt] by simp
    then show "resolved (step (Advance dt) st) w
           \<and> (\<forall>k'. w \<notin> set (dd_lookup (waiters (step (Advance dt) st)) k'))"
      using resolved_in_no_set [OF cs r] by blast
  qed
  have 4: "\<forall>w. pending st w \<longrightarrow>
           resolved (step (Cancel w) st) w
           \<and> (\<forall>k'. w \<notin> set (dd_lookup (waiters (step (Cancel w) st)) k'))"
  proof (intro allI impI)
    fix w assume "pending st w"
    then have r: "resolved (step (Cancel w) st) w" by (simp add: resolved_cancel pending_def)
    then show "resolved (step (Cancel w) st) w
           \<and> (\<forall>k'. w \<notin> set (dd_lookup (waiters (step (Cancel w) st)) k'))"
      using resolved_in_no_set [OF cs r] by blast
  qed
  have 5: "\<forall>w. resolved st w \<longrightarrow>
           deferreds (run evs' st) ! w = deferreds st ! w
           \<and> resolved (run evs' st) w
           \<and> (\<forall>k'. w \<notin> set (dd_lookup (waiters (run evs' st)) k'))"
  proof (intro allI impI)
    fix w assume r: "resolved st w"
    note k = kept_run [OF r, of evs']
    have "waiters_consistent (run evs' st)" using c by (rule waiters_consistent_run)
    from resolved_in_no_set [OF this] k
    show "deferreds (run evs' st) ! w = deferreds st ! w
           \<and> resolved (run evs' st) w
           \<and> (\<forall>k'. w \<notin> set (dd_lookup (waiters (run evs' st)) k'))"
      by blast
  qed
  show ?thesis using 1 2 3 4 5 by blast
qed


theorem waiter_removed_exactly_once_witness:
  "resolved (run [GetAny [''rack-a'', ''rack-b''] 30 0, Cancel 0] init_registry) 0
   \<and> d_result (deferreds (run [GetAny [''rack-a'', ''rack-b''] 30 0, Cancel 0,
                              Register ''rack-a'' 7, Advance 30] init_registry) ! 0)
       = Some (Inl CancelledError)
   \<and> 0 \<notin> set (dd_lookup (waiters (run [GetAny [''rack-a'', ''rack-b''] 30 0, Cancel 0,
                              Register ''rack-a'' 7, Advance 30] init_registry)) ''rack-b'')
   \<and> 1 \<in> set (dd_lookup (waiters two_waiters) ''rack-a'')
   \<and> resolved (step (Register ''rack-a'' 7) two_waiters) 1
   \<and> pending two_waiters 0 \<and> (30, 0) \<in> set (delayed_calls two_waiters)
   \<and> resolved (step (Advance 30) two_waiters) 0
   \<and> resolved (step (Cancel 0) two_waiters) 0"
proof -
  let ?evs = "[GetAny [''rack-a'', ''rack-b''] 30 0, Cancel 0] :: string event list"
  let ?evs' = "[Register ''rack-a'' 7, Advance 30] :: string event list"
  have s: "run ?evs init_registry
      = \<lparr>connections = [(''rack-a'', []), (''rack-b'', [])],
         waiters = [(''rack-a'', []), (''rack-b'', [])],
         deferreds = [\<lparr>d_result = Some (Inl CancelledError), d_callbacks = []\<rparr>],
         delayed_calls = [], seconds = 0, events = []\<rparr>"
    by (simp add: registry_eval)
  have r: "resolved (run ?evs init_registry) 0"
    unfolding s by (simp add: resolved_def)
  have a: "run [GetAny [''rack-a'', ''rack-b''] 30 0, Cancel 0,
                Register ''rack-a'' 7, Advance 30] (init_registry :: string registry)
      = run ?evs' (run ?evs init_registry)"
    by (simp add: run_def)
  have first: "d_result (deferreds (run ?evs' (run ?evs init_registry)) ! 0) = Some (Inl CancelledError)
      \<and> 0 \<notin> set (dd_lookup (waiters (run ?evs' (run ?evs init_registry))) ''rack-b'')"
    using waiter_removed_exactly_once [OF refl, of ?evs ?evs'] r by (simp add: s)
  have m: "1 \<in> set (dd_lookup (waiters two_waiters) ''rack-a'')"
    and p: "pending two_waiters 0" and t: "(30, 0) \<in> set (delayed_calls two_waiters)"
    by (simp_all add: two_waiters_eq dd_lookup_def pending_def)
  have z: "seconds two_waiters = 0" by (simp add: two_waiters_eq)
  note w = waiter_removed_exactly_once [OF two_waiters_def, of "[]"]
  have second: "resolved (step (Register ''rack-a'' 7) two_waiters) 1"
    using w m by blast
  have "pending two_waiters 0 \<and> (30, 0) \<in> set (delayed_calls two_waiters)
          \<and> 30 \<le> seconds two_waiters + 30"
    using p t z by simp
  then have third: "resolved (step (Advance 30) two_waiters) 0"
    using w by blast
  have fourth: "resolved (step (Cancel 0) two_waiters) 0"
    using w p by blast
  show ?thesis
    unfolding a using r first m second p t third fourth by blast
qed

section \<open>A failed registration\<close>

lemma register_try_connections:
  assumes "register_try reg g p st = (r, p', st')"
  shows "p_conn p' = p_conn p"
    and "(p' = p \<and> connections st' = connections st)
         \<or> (\<exists>system_id. reg_register reg = Inr system_id \<and> p_ident p' = Some system_id
              \<and> connections st' = dd_apply (connections st) (Some system_id) (set_add (p_conn p)))"
  using assms
  by (auto simp: register_try_def initResponder_def Let_def
           addConnectionFor_connections [symmetric]
           split: option.splits sum.splits prod.splits if_splits)

text \<open>
  C10: when \<^verbatim>\<open>_register\<close> fails it raises \<^verbatim>\<open>CannotRegisterRackController\<close>, and the
  connection is then not in the set of its identity: not under the identity it was
  added under when the failure came after \<^verbatim>\<open>initResponder\<close> had added it, and in no set
  at all when it was in none before the call.
\<close>

theorem failed_register_leaves_no_connection:
  assumes "register reg has_nodegroup_uuid p st = (Inl err, p', st')"
  shows "err = CannotRegisterRackController
     \<and> p_conn p' = p_conn p
     \<and> p_conn p \<notin> set (dd_lookup (connections st') (p_ident p'))
     \<and> (reg_isLoopbackURL reg = None
          \<and> (has_nodegroup_uuid \<longrightarrow> reg_handle_upgrade reg = None)
          \<longrightarrow> (\<forall>system_id. reg_register reg = Inr system_id
                 \<longrightarrow> p_ident p' = Some system_id
                     \<and> p_conn p \<notin> set (dd_lookup (connections st') (Some system_id))))
     \<and> (\<forall>k. p_conn p \<in> set (dd_lookup (connections st') k)
             \<longrightarrow> p_conn p \<in> set (dd_lookup (connections st) k))
     \<and> ((\<forall>k. p_conn p \<notin> set (dd_lookup (connections st) k))
          \<longrightarrow> (\<forall>k. p_conn p \<notin> set (dd_lookup (connections st') k)))"
proof -
  obtain r st2 where t: "register_try reg has_nodegroup_uuid p st = (r, p', st2)"
    and err: "err = CannotRegisterRackController"
    and st': "st' = removeConnectionFor (p_ident p') (p_conn p') st2"
    using assms by (auto simp: register_def split: prod.splits option.splits)
  note c = register_try_connections [OF t]
  have rm: "\<And>k. set (dd_lookup (connections st') k)
              = (if k = p_ident p' then set (dd_lookup (connections st2) k) - {p_conn p}
                 else set (dd_lookup (connections st2) k))"
    by (simp add: st' removeConnectionFor_def dd_lookup_apply c(1))
  have sub: "\<And>k. set (dd_lookup (connections st2) k)
              \<subseteq> (if k = p_ident p' then insert (p_conn p) (set (dd_lookup (connections st) k))
                 else set (dd_lookup (connections st) k))"
    using c(2) by (auto simp: dd_lookup_apply)
  have 1: "p_conn p \<notin> set (dd_lookup (connections st') (p_ident p'))"
    by (simp add: rm)
  have 2: "\<forall>k. p_conn p \<in> set (dd_lookup (connections st') k)
             \<longrightarrow> p_conn p \<in> set (dd_lookup (connections st) k)"
  proof (intro allI impI)
    fix k assume a: "p_conn p \<in> set (dd_lookup (connections st') k)"
    then have "k \<noteq> p_ident p'" using 1 by auto
    then show "p_conn p \<in> set (dd_lookup (connections st) k)"
      using a rm [of k] sub [of k] by auto
  qed
  have 3: "reg_isLoopbackURL reg = None
          \<and> (has_nodegroup_uuid \<longrightarrow> reg_handle_upgrade reg = None)
          \<longrightarrow> (\<forall>system_id. reg_register reg = Inr system_id
                 \<longrightarrow> p_ident p' = Some system_id
                     \<and> p_conn p \<notin> set (dd_lookup (connections st') (Some system_id)))"
  proof (intro impI allI)
    fix system_id
    assume a: "reg_isLoopbackURL reg = None
          \<and> (has_nodegroup_uuid \<longrightarrow> reg_handle_upgrade reg = None)"
      and b: "reg_register reg = Inr system_id"
    have "p_ident p' = Some system_id"
      using t a b
      by (auto simp: register_try_def initResponder_def Let_def
               split: option.splits sum.splits prod.splits if_splits)
    then show "p_ident p' = Some system_id
                     \<and> p_conn p \<notin> set (dd_lookup (connections st') (Some system_id))"
      using 1 by simp
  qed
  show ?thesis using err c(1) 1 2 3 by blast
qed

theorem failed_register_leaves_no_connection_witness:
  "fst (register failing_registration False new_protocol init_registry)
     = Inl CannotRegisterRackController
   \<and> p_ident (fst (snd (register failing_registration False new_protocol init_registry)))
       = Some ''rack-a''
   \<and> 1 \<notin> set (dd_lookup
        (connections (snd (snd (register failing_registration False new_protocol init_registry))))
        (Some ''rack-a''))
   \<and> events (snd (snd (register failing_registration False new_protocol init_registry)))
       = [Connected (Some ''rack-a''), Disconnected (Some ''rack-a'')]"
proof -
  have e: "register failing_registration False new_protocol init_registry
      = (Inl CannotRegisterRackController,
         \<lparr>p_conn = 1, p_ident = Some ''rack-a'', p_hostIsRemote = True\<rparr>,
         \<lparr>connections = [(Some ''rack-a'', [])], waiters = [(Some ''rack-a'', [])],
          deferreds = [], delayed_calls = [], seconds = 0,
          events = [Connected (Some ''rack-a''), Disconnected (Some ''rack-a'')]\<rparr>)"
    by (simp add: register_def register_try_def initResponder_def failing_registration_def
        new_protocol_def registry_eval)
  show ?thesis
    using failed_register_leaves_no_connection [OF e] by (simp add: e dd_lookup_def)
qed

section \<open>Promotion\<close>

lemma map_upt_shift: "map f [0..<Suc k] = f 0 # map (\<lambda>j. f (Suc j)) [0..<k]"
  by (simp add: map_upt_Suc del: upt_Suc)

lemma tryPromote_skip:
  assumes "\<forall>j<k. running (i + j) \<and> (\<forall>a. attempt (i + j) \<noteq> Promoted a)"
  shows "tryPromote (k + n) running attempt i done
     = tryPromote n running attempt (i + k)
         (done @ concat (map (\<lambda>j. spec_backoff (attempt (i + j))) [0..<k]))"
  using assms
proof (induction k arbitrary: i "done")
  case 0
  then show ?case by simp
next
  case (Suc k)
  have r: "running i" and f: "\<forall>a. attempt i \<noteq> Promoted a"
    using Suc.prems [rule_format, of 0] by simp_all
  have rest: "\<forall>j<k. running (Suc i + j) \<and> (\<forall>a. attempt (Suc i + j) \<noteq> Promoted a)"
    using Suc.prems by (metis Suc_less_eq add_Suc_shift)
  have "tryPromote (Suc k + n) running attempt i done
          = tryPromote (k + n) running attempt (Suc i) (done @ spec_backoff (attempt i))"
    using r f by (cases "attempt i") simp_all
  also have "\<dots> = tryPromote n running attempt (Suc i + k)
         ((done @ spec_backoff (attempt i))
            @ concat (map (\<lambda>j. spec_backoff (attempt (Suc i + j))) [0..<k]))"
    by (rule Suc.IH [OF rest])
  finally show ?case
    by (simp add: map_upt_shift [of "\<lambda>j. spec_backoff (attempt (i + j))"] del: upt_Suc)
qed

text \<open>
  C8: as long as the service is running and \<^verbatim>\<open>promote\<close> fails, \<^verbatim>\<open>_tryPromote\<close> is still
  retrying after any number \<open>k\<close> of attempts, and it has paused 1 second after each
  \<^verbatim>\<open>RegionController.DoesNotExist\<close> and 5 seconds after each other failure. When the
  next attempt succeeds it returns the \<^verbatim>\<open>RegionAdvertising\<close> instance. When instead
  the service is found stopped it raises \<^verbatim>\<open>CancelledError\<close>, and \<^verbatim>\<open>startService\<close> then
  ends without an error for its caller, without starting the advertising loop and
  without logging a failure.
\<close>

theorem tryPromote_retries_until_stopped:
  assumes "\<forall>i<k. running i \<and> (\<forall>a. attempt i \<noteq> Promoted a)"
  shows "tryPromote k running attempt 0 []
           = (concat (map (\<lambda>i. spec_backoff (attempt i)) [0..<k]), None)
     \<and> (running k \<and> attempt k = Promoted adv \<longrightarrow>
          tryPromote (k + Suc m) running attempt 0 []
            = (concat (map (\<lambda>i. spec_backoff (attempt i)) [0..<k]), Some (Inr adv)))
     \<and> (\<not> running k \<longrightarrow>
          tryPromote (k + Suc m) running attempt 0 []
            = (concat (map (\<lambda>i. spec_backoff (attempt i)) [0..<k]), Some (Inl CancelledError))
          \<and> startService_finish (Inl CancelledError) s
            = (Inr (), s\<lparr>as_advertising := Some (Inl CancelledError)\<rparr>))"
proof -
  have a: "\<forall>j<k. running (0 + j) \<and> (\<forall>a. attempt (0 + j) \<noteq> Promoted a)"
    using assms by simp
  have 1: "tryPromote k running attempt 0 []
           = (concat (map (\<lambda>i. spec_backoff (attempt i)) [0..<k]), None)"
    using tryPromote_skip [OF a, of 0 "[]"] by simp
  have 2: "running k \<and> attempt k = Promoted adv \<longrightarrow>
          tryPromote (k + Suc m) running attempt 0 []
            = (concat (map (\<lambda>i. spec_backoff (attempt i)) [0..<k]), Some (Inr adv))"
    using tryPromote_skip [OF a, of "Suc m" "[]"] by simp
  have 3: "\<not> running k \<longrightarrow>
          tryPromote (k + Suc m) running attempt 0 []
            = (concat (map (\<lambda>i. spec_backoff (attempt i)) [0..<k]), Some (Inl CancelledError))"
    using tryPromote_skip [OF a, of "Suc m" "[]"] by simp
  have 4: "startService_finish (Inl CancelledError) s
            = (Inr (), s\<lparr>as_advertising := Some (Inl CancelledError)\<rparr>)"
    by (simp add: startService_finish_def promotionOkay_or_Failed_def startAdvertising_def
        ignoreCancellation_def log_err_def)
  show ?thesis using 1 2 3 4 by blast
qed

theorem tryPromote_retries_until_stopped_witness:
  "tryPromote 2 (\<lambda>i. i < 2) (\<lambda>i. if i = 0 then RegionDoesNotExist else PromoteFailed) 0 []
     = ([Pause 1, LogErr, Pause 5], None)
   \<and> tryPromote 5 (\<lambda>i. i < 2) (\<lambda>i. if i = 0 then RegionDoesNotExist else PromoteFailed) 0 []
     = ([Pause 1, LogErr, Pause 5], Some (Inl CancelledError))
   \<and> startService_finish (Inl CancelledError)
        \<lparr>as_advertising = None, as_advertiser_started = False, as_log = []\<rparr>
     = (Inr (), \<lparr>as_advertising = Some (Inl CancelledError), as_advertiser_started = False,
                 as_log = []\<rparr>)"
proof -
  have h: "\<forall>i<2. (\<lambda>i. i < (2::nat)) i
             \<and> (\<forall>a. (\<lambda>i. if i = (0::nat) then RegionDoesNotExist else PromoteFailed) i \<noteq> Promoted a)"
    by simp
  have u: "[0..<2] = [0, Suc 0]" by (simp add: upt_rec)
  show ?thesis
    using tryPromote_retries_until_stopped [OF h, of example_advertising 2
        "\<lparr>as_advertising = None, as_advertiser_started = False, as_log = []\<rparr>"]
    by (simp add: u)
qed

end
